theory Spec2Isabelle
  imports Complex_Main "HOL-Library.Multiset" "HOL-Library.AList"
begin

section \<open>Text primitives of the Python runtime\<close>

text \<open>
  Python strings are modelled as \<^typ>\<open>string\<close>; a \<^typ>\<open>char\<close> stands for one code point
  below 256. The classes below are the ones CPython's \<^verbatim>\<open>re\<close> module and \<^verbatim>\<open>str\<close> methods use
  on that range: \<^verbatim>\<open>\s\<close> and \<^verbatim>\<open>str.strip\<close> follow \<^verbatim>\<open>str.isspace\<close>, \<^verbatim>\<open>\w\<close> is
  \<^verbatim>\<open>str.isalnum\<close> or the underscore, \<^verbatim>\<open>\d\<close> is a decimal digit.
\<close>

definition code_point :: "char \<Rightarrow> int" where
  "code_point c = of_char c"

definition is_digit :: "char \<Rightarrow> bool" where
  "is_digit c = (let n = code_point c in 48 \<le> n \<and> n \<le> 57)"

definition is_ascii_upper :: "char \<Rightarrow> bool" where
  "is_ascii_upper c = (let n = code_point c in 65 \<le> n \<and> n \<le> 90)"

definition is_ascii_lower :: "char \<Rightarrow> bool" where
  "is_ascii_lower c = (let n = code_point c in 97 \<le> n \<and> n \<le> 122)"

definition is_space :: "char \<Rightarrow> bool" where
  "is_space c = (let n = code_point c in
     (9 \<le> n \<and> n \<le> 13) \<or> (28 \<le> n \<and> n \<le> 32) \<or> n = 133 \<or> n = 160)"

definition is_word_char :: "char \<Rightarrow> bool" where
  "is_word_char c = (let n = code_point c in
     is_digit c \<or> is_ascii_upper c \<or> is_ascii_lower c \<or> n = 95 \<or>
     n = 170 \<or> n = 178 \<or> n = 179 \<or> n = 181 \<or> n = 185 \<or> n = 186 \<or>
     (188 \<le> n \<and> n \<le> 190) \<or> (192 \<le> n \<and> n \<le> 214) \<or>
     (216 \<le> n \<and> n \<le> 246) \<or> (248 \<le> n \<and> n \<le> 255))"

text \<open>\<^verbatim>\<open>str.lower\<close> on one code point below 256.\<close>

definition lower_char :: "char \<Rightarrow> char" where
  "lower_char c = (let n = code_point c in
     if (65 \<le> n \<and> n \<le> 90) \<or> (192 \<le> n \<and> n \<le> 214) \<or> (216 \<le> n \<and> n \<le> 222)
     then char_of (n + 32) else c)"

definition lower :: "string \<Rightarrow> string" where
  "lower s = map lower_char s"

text \<open>
  \<^verbatim>\<open>str.upper\<close> is only ever applied to a match of one of the entity patterns, which
  holds ASCII letters, digits, hyphens and white space; on those it is the ASCII map.
\<close>

definition upper_char :: "char \<Rightarrow> char" where
  "upper_char c = (if is_ascii_lower c then char_of (code_point c - 32) else c)"

definition upper :: "string \<Rightarrow> string" where
  "upper s = map upper_char s"

definition strip :: "string \<Rightarrow> string" where
  "strip s = rev (dropWhile is_space (rev (dropWhile is_space s)))"

text \<open>\<^verbatim>\<open>str.split()\<close> with no argument: the maximal runs of non-space characters.\<close>

fun split_ws_acc :: "string \<Rightarrow> string \<Rightarrow> string list" where
  "split_ws_acc cur [] = (if cur = [] then [] else [cur])"
| "split_ws_acc cur (c # cs) =
     (if is_space c then (if cur = [] then split_ws_acc [] cs else cur # split_ws_acc [] cs)
      else split_ws_acc (cur @ [c]) cs)"

definition split_ws :: "string \<Rightarrow> string list" where
  "split_ws s = split_ws_acc [] s"

text \<open>\<^verbatim>\<open>kw in word\<close> on strings: \<open>kw\<close> occurs as a contiguous piece of \<open>word\<close>.\<close>

fun contains :: "string \<Rightarrow> string \<Rightarrow> bool" where
  "contains [] kw = (kw = [])"
| "contains (c # cs) kw = (take (length kw) (c # cs) = kw \<or> contains cs kw)"

section \<open>The regular expressions of the repository\<close>

text \<open>
  The patterns of the source use literals, the classes \<^verbatim>\<open>\d\<close>, \<^verbatim>\<open>\s\<close>, \<^verbatim>\<open>\w\<close>,
  \<^verbatim>\<open>[A-Z]\<close>, \<^verbatim>\<open>[a-z]\<close>, \<^verbatim>\<open>[\s-]\<close>, the anchor \<^verbatim>\<open>\b\<close>, alternation and the greedy
  quantifiers. A position in the text is the character before it (if any) and the rest
  of the text. \<open>rmatch\<close> lists the positions where a match starting at the given position
  can end, in the order in which a backtracking matcher tries them, so the head of the
  list is the match \<^verbatim>\<open>re\<close> reports.
\<close>

datatype rx =
    Sym "char \<Rightarrow> bool"
  | Bnd
  | Eps
  | Cat rx rx
  | Alt rx rx
  | Star rx

type_synonym pos = "char option \<times> string"

definition at_boundary :: "pos \<Rightarrow> bool" where
  "at_boundary p =
     ((case fst p of None \<Rightarrow> False | Some c \<Rightarrow> is_word_char c) \<noteq>
      (case snd p of [] \<Rightarrow> False | c # _ \<Rightarrow> is_word_char c))"

function rmatch :: "rx \<Rightarrow> pos \<Rightarrow> pos list" where
  "rmatch (Sym f) p = (case snd p of [] \<Rightarrow> [] | c # cs \<Rightarrow> if f c then [(Some c, cs)] else [])"
| "rmatch Bnd p = (if at_boundary p then [p] else [])"
| "rmatch Eps p = [p]"
| "rmatch (Cat a b) p = concat (map (rmatch b) (rmatch a p))"
| "rmatch (Alt a b) p = rmatch a p @ rmatch b p"
| "rmatch (Star a) p =
     concat (map (rmatch (Star a))
       (filter (\<lambda>q. length (snd q) < length (snd p)) (rmatch a p))) @ [p]"
  by pat_completeness auto
termination
  by (relation "measures [\<lambda>(r, p). size r, \<lambda>(r, p). length (snd p)]") auto

text \<open>Building blocks, named after the regular-expression syntax they stand for.\<close>

definition lit :: "string \<Rightarrow> rx" where
  "lit s = foldr (\<lambda>c r. Cat (Sym (\<lambda>x. x = c)) r) s Eps"

text \<open>
  A literal under \<^verbatim>\<open>re.IGNORECASE\<close>: each character of the pattern (ASCII in every
  pattern of the repository) stands for itself and its other-case variant.
\<close>

definition ilit :: "string \<Rightarrow> rx" where
  "ilit s = foldr (\<lambda>c r. Cat (Sym (\<lambda>x. x = c \<or> x = lower_char c \<or> x = upper_char c)) r) s Eps"

fun alts :: "rx list \<Rightarrow> rx" where
  "alts [] = Sym (\<lambda>_. False)"
| "alts [r] = r"
| "alts (r # rs) = Alt r (alts rs)"

definition opt :: "rx \<Rightarrow> rx" where
  "opt r = Alt r Eps"

definition plus1 :: "rx \<Rightarrow> rx" where
  "plus1 r = Cat r (Star r)"

text \<open>\<^verbatim>\<open>r{m,n}\<close>: \<open>m\<close> copies, then up to \<open>n - m\<close> more, as many as possible first.\<close>

fun upto_times :: "nat \<Rightarrow> rx \<Rightarrow> rx" where
  "upto_times 0 r = Eps"
| "upto_times (Suc k) r = Alt (Cat r (upto_times k r)) Eps"

fun times :: "nat \<Rightarrow> rx \<Rightarrow> rx \<Rightarrow> rx" where
  "times 0 r rest = rest"
| "times (Suc k) r rest = Cat r (times k r rest)"

definition rep :: "nat \<Rightarrow> nat \<Rightarrow> rx \<Rightarrow> rx" where
  "rep m n r = times m r (upto_times (n - m) r)"

definition digit :: rx where
  "digit = Sym is_digit"

definition space_or_hyphen :: rx where
  "space_or_hyphen = Sym (\<lambda>c. is_space c \<or> c = CHR ''-'')"

text \<open>
  Scanning a text from left to right, as \<^verbatim>\<open>re.findall\<close> and \<^verbatim>\<open>re.sub\<close> do: at each
  position the first match is taken and the scan goes on behind it; where nothing
  matches, one character is passed over. A match that consumes nothing is recorded
  and the scan moves on by one character (no pattern of the repository has one).
\<close>

datatype piece = Gap char | Hit string

function scan :: "rx \<Rightarrow> pos \<Rightarrow> piece list" where
  "scan r p =
     (case rmatch r p of
        [] \<Rightarrow> (case snd p of [] \<Rightarrow> [] | c # cs \<Rightarrow> Gap c # scan r (Some c, cs))
      | q # _ \<Rightarrow>
          if length (snd q) < length (snd p)
          then Hit (take (length (snd p) - length (snd q)) (snd p)) # scan r q
          else (case snd p of [] \<Rightarrow> [Hit []]
                | c # cs \<Rightarrow> Hit [] # Gap c # scan r (Some c, cs)))"
  by pat_completeness auto
termination
  by (relation "measure (\<lambda>(r, p). length (snd p))") auto

definition findall :: "rx \<Rightarrow> string \<Rightarrow> string list" where
  "findall r text = concat (map (\<lambda>x. case x of Gap _ \<Rightarrow> [] | Hit m \<Rightarrow> [m]) (scan r (None, text)))"

definition sub :: "rx \<Rightarrow> string \<Rightarrow> string \<Rightarrow> string" where
  "sub r repl text =
     concat (map (\<lambda>x. case x of Gap c \<Rightarrow> [c] | Hit _ \<Rightarrow> repl) (scan r (None, text)))"

definition seq :: "rx list \<Rightarrow> rx" where
  "seq rs = foldr Cat rs Eps"

text \<open>\<^verbatim>\<open>\b(...)\b\<close>\<close>

definition whole_word :: "rx \<Rightarrow> rx" where
  "whole_word r = seq [Bnd, r, Bnd]"

section \<open>The entity and regex mode: \<^verbatim>\<open>src/processors/story_correlator.py\<close>\<close>

text \<open>
  A story of this module is a Python dict with string values, read with
  \<^verbatim>\<open>story.get(key, '')\<close>.
\<close>

type_synonym story = "string \<rightharpoonup> string"

definition get_field :: "story \<Rightarrow> string \<Rightarrow> string" where
  "get_field story key = (case story key of None \<Rightarrow> [] | Some v \<Rightarrow> v)"

text \<open>\<^verbatim>\<open>self.entity_patterns\<close>, in the order of the dict literal; every pattern is compiled
  with \<^verbatim>\<open>re.IGNORECASE\<close>.\<close>

definition entity_patterns :: "(string \<times> rx) list" where
  "entity_patterns =
   [(''countries'', whole_word (alts (map ilit
       [''China'', ''Chinese'', ''Russia'', ''Russian'', ''Iran'', ''Iranian'', ''Israel'',
        ''Ukraine'', ''Taiwan'', ''North Korea'', ''DPRK'', ''United States'', ''USA'', ''US'',
        ''Myanmar'', ''India'', ''European Union'', ''EU'']))),
    (''threat_actors'', whole_word (alts
       (seq [ilit ''APT'', Star digit] # map ilit
         [''Lazarus'', ''Cozy Bear'', ''Fancy Bear'', ''Salt Typhoon'', ''Volt Typhoon'',
          ''Sandworm'', ''Kimsuky'', ''state-sponsored'', ''nation-state'']))),
    (''malware'', whole_word (alts (map ilit
       [''ransomware'', ''malware'', ''trojan'', ''backdoor'', ''rootkit'', ''spyware'',
        ''wiper'']))),
    (''vulnerabilities'', whole_word (alts
       (seq [ilit ''CVE-'', rep 4 4 digit, ilit ''-'', rep 4 7 digit] # map ilit
         [''zero-day'', ''zero day'', ''0day'', ''vulnerability'', ''exploit'']))),
    (''techniques'', whole_word (alts (map ilit
       [''phishing'', ''spear-phishing'', ''social engineering'', ''watering hole'', ''DDoS'',
        ''credential stuffing'', ''attack'', ''breach'', ''hack'', ''intrusion'']))),
    (''sectors'', whole_word (alts (map ilit
       [''healthcare'', ''financial'', ''infrastructure'', ''energy'', ''telecom'',
        ''telecommunications'', ''government'', ''defense'', ''military'']))),
    (''tech'', whole_word (alts (map ilit
       [''Ivanti'', ''VMware'', ''Cisco'', ''Microsoft'', ''Google'', ''Apple'', ''Huawei'',
        ''5G'', ''AI'']))),
    (''cyber_ops'', whole_word (alts
       [ilit ''cyber attack'', ilit ''cyber espionage'',
        seq [ilit ''cyber'', opt space_or_hyphen, ilit ''threat''],
        ilit ''data breach'', ilit ''network intrusion'', ilit ''hacking campaign'',
        ilit ''compromise''])),
    (''supply_chain'', whole_word (alts
       [ilit ''semiconductor'', ilit ''chip'', ilit ''TSMC'',
        seq [ilit ''rare'', opt space_or_hyphen, ilit ''earth'', opt (ilit ''s'')],
        ilit ''lithium'', ilit ''cobalt'', ilit ''gallium'', ilit ''germanium'',
        ilit ''supply chain'', ilit ''fab'', ilit ''foundry'', ilit ''wafer''])),
    (''economic'', whole_word (alts (map ilit
       [''sanctions'', ''sanction'', ''tariff'', ''export control'', ''trade war'',
        ''trade spat'', ''CFIUS'', ''Entity List'', ''forced technology transfer'',
        ''economic warfare'']))),
    (''military'', whole_word (alts (map ilit
       [''drone'', ''UAV'', ''UAS'', ''missile'', ''satellite'', ''ASAT'',
        ''military operation'', ''combat'', ''military warfare'', ''space warfare''])))]"

text \<open>The body of the loop over the matches in \<^verbatim>\<open>extract_entities\<close>.\<close>

definition normalize_match :: "string \<Rightarrow> string" where
  "normalize_match m =
     (let normalized_match = upper m;
          normalized_match =
            sub (seq [lit ''RARE'', opt space_or_hyphen, lit ''EARTH'', opt (lit ''S'')])
              ''RARE EARTH'' normalized_match
      in strip (sub (plus1 space_or_hyphen) '' '' normalized_match))"

text \<open>
  \<^verbatim>\<open>extract_entities\<close> returns a dict from entity type to a set of strings, with a key
  only for a type that matched. The dict is an association list in insertion order
  (the order of the patterns); a set is a list without duplicates, read through
  \<^const>\<open>set\<close> wherever the source takes unions, intersections and sizes.
\<close>

definition extract_entities :: "string \<Rightarrow> (string \<times> string list) list" where
  "extract_entities text =
     concat (map (\<lambda>(entity_type, pattern).
        let matches = findall pattern text
        in if matches \<noteq> [] then [(entity_type, remdups (map normalize_match matches))] else [])
       entity_patterns)"

text \<open>\<^verbatim>\<open>entities.get(entity_type, set())\<close>\<close>

definition get_set :: "(string \<times> string list) list \<Rightarrow> string \<Rightarrow> string set" where
  "get_set entities entity_type =
     (case map_of entities entity_type of None \<Rightarrow> {} | Some xs \<Rightarrow> set xs)"

definition story_text :: "story \<Rightarrow> string" where
  "story_text story = get_field story ''Title'' @ '' '' @ get_field story ''Category''"

text \<open>One round of the loop over the entity types: the state is
  \<open>(dimensions_matched, dimension_scores)\<close>.\<close>

definition dimension_step ::
  "(string \<times> string list) list \<Rightarrow> (string \<times> string list) list \<Rightarrow> nat \<times> real list \<Rightarrow> string
     \<Rightarrow> nat \<times> real list" where
  "dimension_step entities1 entities2 acc entity_type =
     (let set1 = get_set entities1 entity_type;
          set2 = get_set entities2 entity_type
      in if set1 \<noteq> {} \<and> set2 \<noteq> {} then
           (let shared = card (set1 \<inter> set2);
                total = card (set1 \<union> set2)
            in if shared > 0 then (fst acc + 1, snd acc @ [real shared / real total]) else acc)
         else acc)"

definition dimension_loop ::
  "(string \<times> string list) list \<Rightarrow> (string \<times> string list) list \<Rightarrow> nat \<times> real list" where
  "dimension_loop entities1 entities2 =
     foldl (dimension_step entities1 entities2) (0, []) (map fst entity_patterns)"

definition stop_words :: "string set" where
  "stop_words = set [''the'', ''a'', ''an'', ''and'', ''or'', ''but'', ''in'', ''on'', ''at'',
     ''to'', ''for'', ''of'', ''with'', ''by'', ''from'', ''up'', ''about'', ''into'',
     ''through'', ''during'']"

definition story_words :: "string \<Rightarrow> string set" where
  "story_words text = set (findall (plus1 (Sym is_word_char)) (lower text)) - stop_words"

definition word_overlap :: "string set \<Rightarrow> string set \<Rightarrow> real" where
  "word_overlap words1 words2 =
     real (card (words1 \<inter> words2)) / real (max (card (words1 \<union> words2)) 1)"

text \<open>
  Python floats are modelled as exact reals: the scores are quotients of small counts
  and two products with the constants 0.7 and 0.3.
\<close>

definition calculate_story_similarity :: "story \<Rightarrow> story \<Rightarrow> real" where
  "calculate_story_similarity story1 story2 =
     (let text1 = story_text story1;
          text2 = story_text story2;
          entities1 = extract_entities text1;
          entities2 = extract_entities text2;
          (dimensions_matched, dimension_scores) = dimension_loop entities1 entities2;
          words1 = story_words text1;
          words2 = story_words text2;
          word_overlap = word_overlap words1 words2
      in if dimensions_matched < 2 \<and> word_overlap < 0.5 then 0
         else
           (let entity_similarity =
                  (if dimension_scores \<noteq> []
                   then sum_list dimension_scores / real (length dimension_scores) else 0)
            in entity_similarity * 0.7 + word_overlap * 0.3))"

subsection \<open>\<^verbatim>\<open>find_story_clusters\<close> and \<^verbatim>\<open>_split_large_cluster\<close>\<close>

text \<open>
  The inner loop \<^verbatim>\<open>for j in range(i + 1, n)\<close> over the remaining indices; the state is
  the cluster under construction and the set \<^verbatim>\<open>assigned\<close>. The second branch is the
  \<^verbatim>\<open>break\<close>.
\<close>

fun grow_cluster ::
  "story list \<Rightarrow> real \<Rightarrow> int \<Rightarrow> nat \<Rightarrow> nat list \<Rightarrow> story list \<times> nat set \<Rightarrow> story list \<times> nat set" where
  "grow_cluster stories threshold max_cluster_size i [] (cluster, assigned) = (cluster, assigned)"
| "grow_cluster stories threshold max_cluster_size i (j # js) (cluster, assigned) =
     (if j \<in> assigned then grow_cluster stories threshold max_cluster_size i js (cluster, assigned)
      else if int (length cluster) \<ge> max_cluster_size then (cluster, assigned)
      else
        (let similarity = calculate_story_similarity (stories ! i) (stories ! j)
         in if similarity \<ge> threshold
            then grow_cluster stories threshold max_cluster_size i js
                   (cluster @ [stories ! j], insert j assigned)
            else grow_cluster stories threshold max_cluster_size i js (cluster, assigned)))"

text \<open>The outer loop \<^verbatim>\<open>for i in range(n)\<close>; the state is \<open>(clusters, assigned)\<close>.\<close>

fun cluster_loop ::
  "story list \<Rightarrow> real \<Rightarrow> int \<Rightarrow> nat list \<Rightarrow> story list list \<times> nat set
     \<Rightarrow> story list list \<times> nat set" where
  "cluster_loop stories threshold max_cluster_size [] (clusters, assigned) = (clusters, assigned)"
| "cluster_loop stories threshold max_cluster_size (i # is) (clusters, assigned) =
     (if i \<in> assigned then cluster_loop stories threshold max_cluster_size is (clusters, assigned)
      else
        (let (cluster, assigned') =
               grow_cluster stories threshold max_cluster_size i [i + 1 ..< length stories]
                 ([stories ! i], insert i assigned)
         in cluster_loop stories threshold max_cluster_size is (clusters @ [cluster], assigned')))"

text \<open>
  \<^verbatim>\<open>_split_large_cluster\<close> repeats the two nested iterations on the members of one cluster, with
  \<^verbatim>\<open>higher_threshold\<close> and \<^verbatim>\<open>max_size\<close>.
\<close>

definition split_large_cluster :: "story list \<Rightarrow> real \<Rightarrow> int \<Rightarrow> story list list" where
  "split_large_cluster cluster higher_threshold max_size =
     (if int (length cluster) \<le> max_size then [cluster]
      else fst (cluster_loop cluster higher_threshold max_size [0 ..< length cluster] ([], {})))"

text \<open>
  \<^verbatim>\<open>clusters.sort(key=lambda c: len(c), reverse=True)\<close> is a stable sort by descending
  size, which is the stable ascending sort on the negated size.
\<close>

definition sort_by_size_desc :: "'a list list \<Rightarrow> 'a list list" where
  "sort_by_size_desc clusters = sort_key (\<lambda>c. - int (length c)) clusters"

definition find_story_clusters :: "story list \<Rightarrow> real \<Rightarrow> int \<Rightarrow> story list list" where
  "find_story_clusters stories threshold max_cluster_size =
     (if stories = [] then []
      else
        (let clusters =
               fst (cluster_loop stories threshold max_cluster_size [0 ..< length stories] ([], {}));
             clusters = sort_by_size_desc clusters
         in concat (map (\<lambda>cluster.
              if int (length cluster) > max_cluster_size
              then split_large_cluster cluster (threshold + 0.1) max_cluster_size
              else [cluster]) clusters)))"

subsection \<open>\<^verbatim>\<open>identify_connections\<close>\<close>

text \<open>
  \<^verbatim>\<open>entity_map\<close> is a \<^verbatim>\<open>defaultdict(list)\<close>, iterated afterwards: an association list
  in insertion order. \<^verbatim>\<open>entity_map[key].append(story)\<close>:
\<close>

definition append_story ::
  "string \<Rightarrow> story \<Rightarrow> (string \<times> story list) list \<Rightarrow> (string \<times> story list) list" where
  "append_story key story entity_map =
     AList.update key ((case map_of entity_map key of None \<Rightarrow> [] | Some l \<Rightarrow> l) @ [story]) entity_map"

text \<open>The keys \<^verbatim>\<open>f"{entity_type}:{entity}"\<close> one story is appended under.\<close>

definition story_keys :: "story \<Rightarrow> string list" where
  "story_keys story =
     concat (map (\<lambda>(entity_type, entity_set). map (\<lambda>entity. entity_type @ '':'' @ entity) entity_set)
       (extract_entities (story_text story)))"

definition build_entity_map :: "story list \<Rightarrow> (string \<times> story list) list" where
  "build_entity_map stories =
     foldl (\<lambda>entity_map story. foldl (\<lambda>m key. append_story key story m) entity_map (story_keys story))
       [] stories"

text \<open>\<^verbatim>\<open>entity.split(':', 1)\<close> on a key that holds a colon (every key does).\<close>

definition split_key :: "string \<Rightarrow> string \<times> string" where
  "split_key entity =
     (takeWhile (\<lambda>c. c \<noteq> CHR '':'') entity, drop 1 (dropWhile (\<lambda>c. c \<noteq> CHR '':'') entity))"

text \<open>The dict \<^verbatim>\<open>{'count': ..., 'stories': ...}\<close> stored for one entity.\<close>

record connection =
  conn_count :: nat
  conn_stories :: "story list"

type_synonym connections = "string \<rightharpoonup> (string \<rightharpoonup> connection)"

definition add_connection :: "connections \<Rightarrow> string \<times> story list \<Rightarrow> connections" where
  "add_connection connections item =
     (let (entity, story_list) = item
      in if length story_list > 1 then
           (let (entity_type, entity_name) = split_key entity;
                inner = (case connections entity_type of None \<Rightarrow> Map.empty | Some m \<Rightarrow> m)
            in connections(entity_type \<mapsto>
                 inner(entity_name \<mapsto> \<lparr>conn_count = length story_list, conn_stories = story_list\<rparr>)))
         else connections)"

definition identify_connections :: "story list \<Rightarrow> connections" where
  "identify_connections stories = foldl add_connection Map.empty (build_entity_map stories)"

section \<open>The fallback extractor and the lexical similarity: \<^verbatim>\<open>src/processors/nlp_processor.py\<close>\<close>

definition org_keywords :: "string list" where
  "org_keywords = [''Corp'', ''Inc'', ''Ltd'', ''LLC'', ''Company'', ''Group'', ''Agency'',
     ''Ministry'', ''Department'']"

text \<open>\<^verbatim>\<open>\b[A-Z][a-z]+(?:\s+[A-Z][a-z]+)*\b\<close>\<close>

definition capitalized_phrase :: rx where
  "capitalized_phrase =
     (let word = Cat (Sym is_ascii_upper) (plus1 (Sym is_ascii_lower))
      in seq [Bnd, word, Star (Cat (plus1 (Sym is_space)) word), Bnd])"

text \<open>The loop \<^verbatim>\<open>for word in words\<close>; the state is \<open>(potential_orgs, potential_persons)\<close>.\<close>

definition classify_word :: "string list \<times> string list \<Rightarrow> string \<Rightarrow> string list \<times> string list" where
  "classify_word acc word =
     (if list_ex (contains word) org_keywords then (fst acc @ [word], snd acc)
      else if length (split_ws word) \<le> 3 then (fst acc, snd acc @ [word])
      else acc)"

text \<open>
  \<^verbatim>\<open>list(set(xs))\<close> lists the distinct elements of \<open>xs\<close> in the iteration order of a
  Python set, which the language leaves open (for strings it changes with the hash seed
  of the process). The order is a parameter \<open>set_order\<close> of the model, and
  \<open>set_iteration\<close> says what every such order satisfies.
\<close>

definition set_iteration :: "(string list \<Rightarrow> string list) \<Rightarrow> bool" where
  "set_iteration set_order = (\<forall>xs. distinct (set_order xs) \<and> set (set_order xs) = set xs)"

definition extract_entities_basic ::
  "(string list \<Rightarrow> string list) \<Rightarrow> string \<Rightarrow> (string \<times> string list) list" where
  "extract_entities_basic set_order text =
     (let words = findall capitalized_phrase text;
          (potential_orgs, potential_persons) = foldl classify_word ([], []) words
      in (if potential_orgs \<noteq> [] then [(''ORG'', take 10 (set_order potential_orgs))] else []) @
         (if potential_persons \<noteq> [] then [(''PERSON'', take 10 (set_order potential_persons))]
          else []))"

text \<open>\<^verbatim>\<open>\b[a-z]{3,}\b\<close>\<close>

definition lower_word3 :: rx where
  "lower_word3 = whole_word (times 3 (Sym is_ascii_lower) (Star (Sym is_ascii_lower)))"

definition simple_similarity :: "string \<Rightarrow> string \<Rightarrow> real" where
  "simple_similarity text1 text2 =
     (let words1 = set (findall lower_word3 (lower text1));
          words2 = set (findall lower_word3 (lower text2))
      in if words1 = {} \<or> words2 = {} then 0
         else
           (let intersection = card (words1 \<inter> words2);
                union = card (words1 \<union> words2)
            in if union > 0 then real intersection / real union else 0))"

text \<open>
  \<^verbatim>\<open>calculate_similarity\<close> asks scikit-learn for the cosine of the two TF-IDF vectors and
  falls back on \<^verbatim>\<open>_simple_similarity\<close> when anything in that block raises (the import
  included). The library call is the parameter \<open>tfidf\<close>; \<open>None\<close> is an exception.
\<close>

definition calculate_similarity ::
  "(string \<Rightarrow> string \<Rightarrow> real option) \<Rightarrow> string \<Rightarrow> string \<Rightarrow> real" where
  "calculate_similarity tfidf text1 text2 =
     (if text1 = [] \<or> text2 = [] then 0
      else (case tfidf text1 text2 of Some similarity \<Rightarrow> similarity
            | None \<Rightarrow> simple_similarity text1 text2))"

section \<open>The general mode: \<^verbatim>\<open>src/correlators/story_correlator.py\<close>\<close>

text \<open>
  \<^verbatim>\<open>Story\<close> of \<^verbatim>\<open>src/collectors/base_collector.py\<close>, without its free-form metadata;
  \<open>published_date\<close> is a point in time in microseconds. The dict returned by
  \<^verbatim>\<open>process_story\<close> is the record \<open>story_data\<close>, and a processed story, the dict with
  the keys \<^verbatim>\<open>'story'\<close> and \<^verbatim>\<open>'data'\<close>, is a pair. Where a private method of this module
  has the name of a function of the entity mode, it carries the prefix \<open>corr\<close>.
\<close>

record news_story =
  story_id :: string
  title :: string
  url :: string
  source :: string
  published_date :: int
  content :: string
  description :: string
  author :: string
  collector :: string

record story_data =
  data_story_id :: string
  data_entities :: "(string \<times> string list) list"
  data_keywords :: "string list"
  data_text_for_similarity :: string

type_synonym processed_story = "news_story \<times> story_data"




text \<open>\<^verbatim>\<open>self.similarity_threshold = config.get('similarity_threshold', 0.3)\<close>\<close>

definition init_similarity_threshold :: "(string \<rightharpoonup> real) \<Rightarrow> real" where
  "init_similarity_threshold config =
     (case config ''similarity_threshold'' of None \<Rightarrow> 0.3 | Some t \<Rightarrow> t)"

definition entity_similarity ::
  "(string \<times> string list) list \<Rightarrow> (string \<times> string list) list \<Rightarrow> real" where
  "entity_similarity entities1 entities2 =
     (if entities1 = [] \<or> entities2 = [] then 0
      else
        (let all_entities1 = set (map lower (concat (map snd entities1)));
             all_entities2 = set (map lower (concat (map snd entities2)))
         in if all_entities1 = {} \<or> all_entities2 = {} then 0
            else
              (let intersection = card (all_entities1 \<inter> all_entities2);
                   union = card (all_entities1 \<union> all_entities2)
               in if union > 0 then real intersection / real union else 0)))"

definition keyword_similarity :: "string set \<Rightarrow> string set \<Rightarrow> real" where
  "keyword_similarity keywords1 keywords2 =
     (if keywords1 = {} \<or> keywords2 = {} then 0
      else
        (let intersection = card (keywords1 \<inter> keywords2);
             union = card (keywords1 \<union> keywords2)
         in if union > 0 then real intersection / real union else 0))"

definition temporal_similarity :: "int \<Rightarrow> int \<Rightarrow> real" where
  "temporal_similarity date1 date2 =
     (let time_diff = \<bar>real_of_int (date1 - date2) / 1000000\<bar>
      in if time_diff < 3600 then 1
         else if time_diff < 86400 then 0.5
         else if time_diff < 604800 then 0.2
         else 0)"

definition corr_calculate_story_similarity ::
  "(string \<Rightarrow> string \<Rightarrow> real) \<Rightarrow> processed_story \<Rightarrow> processed_story \<Rightarrow> real" where
  "corr_calculate_story_similarity nlp_calculate_similarity story1 story2 =
     (let data1 = snd story1;
          data2 = snd story2;
          text_sim = nlp_calculate_similarity (data_text_for_similarity data1)
                       (data_text_for_similarity data2);
          entity_sim = entity_similarity (data_entities data1) (data_entities data2);
          keyword_sim = keyword_similarity (set (data_keywords data1)) (set (data_keywords data2));
          temporal_sim = temporal_similarity (published_date (fst story1))
                           (published_date (fst story2))
      in text_sim * 0.4 + entity_sim * 0.3 + keyword_sim * 0.2 + temporal_sim * 0.1)"


text \<open>
  The adjacency \<^verbatim>\<open>defaultdict(set)\<close>: every node has a neighbour set, empty until an
  edge is added. A set of nodes is a list without duplicates here (Python leaves the
  iteration order of a set open; the statements below do not depend on it).
\<close>

definition add_edge :: "nat \<Rightarrow> nat \<Rightarrow> (nat \<Rightarrow> nat list) \<Rightarrow> (nat \<Rightarrow> nat list)" where
  "add_edge i j graph = graph(i := (if j \<in> set (graph i) then graph i else graph i @ [j]))"

definition build_graph :: "(nat \<times> nat \<times> real) list \<Rightarrow> (nat \<Rightarrow> nat list)" where
  "build_graph relationships =
     foldl (\<lambda>graph (i, j, _). add_edge j i (add_edge i j graph)) (\<lambda>_. []) relationships"

text \<open>
  The recursive \<^verbatim>\<open>dfs(node, current_cluster_nodes)\<close> with its shared \<^verbatim>\<open>visited\<close> set.
  The first argument is the recursion depth still available: Python raises
  \<^verbatim>\<open>RecursionError\<close> when the interpreter's limit is reached, which is the result \<open>None\<close>.
\<close>

fun dfs :: "nat \<Rightarrow> (nat \<Rightarrow> nat list) \<Rightarrow> nat \<Rightarrow> nat set \<times> nat list \<Rightarrow> (nat set \<times> nat list) option" where
  "dfs 0 graph node st = None"
| "dfs (Suc depth) graph node (visited, current_cluster_nodes) =
     fold (\<lambda>neighbor r.
        case r of None \<Rightarrow> None
        | Some (v, c) \<Rightarrow> if neighbor \<notin> v then dfs depth graph neighbor (v, c) else Some (v, c))
       (graph node) (Some (insert node visited, current_cluster_nodes @ [node]))"





section \<open>The seeded growth of clusters\<close>

text \<open>
  What one run of the inner loop does: it appends the stories of some indices \<open>added\<close>,
  taken from the indices it was given and not assigned before, and marks them assigned.
\<close>

lemma grow_cluster_spec:
  "distinct js \<Longrightarrow> grow_cluster ss thr K i js (cluster, assigned) = (cluster', assigned') \<Longrightarrow>
   \<exists>added. distinct added \<and> set added \<subseteq> set js - assigned \<and>
     cluster' = cluster @ map ((!) ss) added \<and> assigned' = assigned \<union> set added"
proof (induction js arbitrary: cluster assigned)
  case Nil
  then show ?case by simp
next
  case (Cons j js)
  from Cons.prems(1) have dj: "j \<notin> set js" and djs: "distinct js" by simp_all
  consider (skip) "j \<in> assigned"
    | (brk) "j \<notin> assigned" "int (length cluster) \<ge> K"
    | (add) "j \<notin> assigned" "\<not> int (length cluster) \<ge> K"
        "calculate_story_similarity (ss ! i) (ss ! j) \<ge> thr"
    | (no) "j \<notin> assigned" "\<not> int (length cluster) \<ge> K"
        "\<not> calculate_story_similarity (ss ! i) (ss ! j) \<ge> thr"
    by blast
  then show ?case
  proof cases
    case skip
    with Cons.prems(2) have "grow_cluster ss thr K i js (cluster, assigned) = (cluster', assigned')"
      by simp
    from Cons.IH[OF djs this] show ?thesis by auto
  next
    case brk
    with Cons.prems(2) have "cluster' = cluster" "assigned' = assigned" by simp_all
    then show ?thesis by (intro exI[of _ "[]"]) simp
  next
    case add
    with Cons.prems(2) have
      "grow_cluster ss thr K i js (cluster @ [ss ! j], insert j assigned) = (cluster', assigned')"
      by simp
    from Cons.IH[OF djs this] obtain added where a: "distinct added"
      "set added \<subseteq> set js - insert j assigned"
      "cluster' = (cluster @ [ss ! j]) @ map ((!) ss) added"
      "assigned' = insert j assigned \<union> set added" by blast
    show ?thesis
      using a dj add(1) by (intro exI[of _ "j # added"]) auto
  next
    case no
    with Cons.prems(2) have "grow_cluster ss thr K i js (cluster, assigned) = (cluster', assigned')"
      by simp
    from Cons.IH[OF djs this] show ?thesis by auto
  qed
qed

lemma grow_cluster_size:
  "grow_cluster ss thr K i js (cluster, assigned) = (cluster', assigned') \<Longrightarrow>
   int (length cluster) \<le> M \<Longrightarrow> K \<le> M \<Longrightarrow> int (length cluster') \<le> M"
proof (induction js arbitrary: cluster assigned)
  case Nil
  then show ?case by simp
next
  case (Cons j js)
  then show ?case
    by (auto simp: Let_def split: if_splits)
qed


lemma cluster_loop_spec:
  "cluster_loop ss thr K is (clusters, assigned) = (clusters', assigned') \<Longrightarrow>
   distinct order \<Longrightarrow> set order = assigned \<Longrightarrow> concat clusters = map ((!) ss) order \<Longrightarrow>
   set is \<subseteq> {0..<length ss} \<Longrightarrow> assigned \<subseteq> {0..<length ss} \<Longrightarrow>
   (\<forall>c\<in>set clusters. c \<noteq> [] \<and> int (length c) \<le> max 1 K) \<Longrightarrow>
   \<exists>order'. distinct order' \<and> set order' = assigned' \<and>
     concat clusters' = map ((!) ss) order' \<and>
     assigned \<union> set is \<subseteq> assigned' \<and> assigned' \<subseteq> {0..<length ss} \<and>
     (\<forall>c\<in>set clusters'. c \<noteq> [] \<and> int (length c) \<le> max 1 K)"
proof (induction "is" arbitrary: clusters assigned order)
  case Nil
  then show ?case by auto
next
  case (Cons i "is")
  show ?case
  proof (cases "i \<in> assigned")
    case True
    with Cons.prems(1) have
      "cluster_loop ss thr K is (clusters, assigned) = (clusters', assigned')" by simp
    from Cons.IH[OF this Cons.prems(2,3,4) _ Cons.prems(6,7)] Cons.prems(5) True
    show ?thesis by auto
  next
    case False
    obtain cluster a2 where g:
      "grow_cluster ss thr K i [i + 1 ..< length ss] ([ss ! i], insert i assigned) = (cluster, a2)"
      by (cases "grow_cluster ss thr K i [i + 1 ..< length ss] ([ss ! i], insert i assigned)")
    with False Cons.prems(1) have rest:
      "cluster_loop ss thr K is (clusters @ [cluster], a2) = (clusters', assigned')"
      by simp
    from grow_cluster_spec[OF _ g] obtain added where a: "distinct added"
      "set added \<subseteq> set [i + 1 ..< length ss] - insert i assigned"
      "cluster = [ss ! i] @ map ((!) ss) added" "a2 = insert i assigned \<union> set added"
      by auto
    have sz: "int (length cluster) \<le> max 1 K"
      by (rule grow_cluster_size[OF g]) simp_all
    let ?order = "order @ i # added"
    have 1: "distinct ?order"
      using Cons.prems(2,3) False a(1,2) by auto
    have 2: "set ?order = a2"
      using Cons.prems(3) a(4) by auto
    have 3: "concat (clusters @ [cluster]) = map ((!) ss) ?order"
      using Cons.prems(4) a(3) by simp
    have 4: "set is \<subseteq> {0..<length ss}"
      using Cons.prems(5) by simp
    have 5: "a2 \<subseteq> {0..<length ss}"
      using Cons.prems(5,6) a(2,4) by auto
    have 6: "\<forall>c\<in>set (clusters @ [cluster]). c \<noteq> [] \<and> int (length c) \<le> max 1 K"
      using Cons.prems(7) sz a(3) by auto
    from Cons.IH[OF rest 1 2 3 4 5 6] obtain order' where o: "distinct order'"
      "set order' = assigned'" "concat clusters' = map ((!) ss) order'"
      "a2 \<union> set is \<subseteq> assigned'" "assigned' \<subseteq> {0..<length ss}"
      "\<forall>c\<in>set clusters'. c \<noteq> [] \<and> int (length c) \<le> max 1 K"
      by blast
    have "assigned \<union> set (i # is) \<subseteq> assigned'"
      using o(4) a(4) by auto
    with o show ?thesis by blast
  qed
qed

lemma mset_map_nth_perm:
  assumes "distinct order" "set order = {0..<length ss}"
  shows "mset (map ((!) ss) order) = mset ss"
proof -
  have "mset order = mset [0..<length ss]"
    using assms by (metis distinct_upt mset_set_set set_upt)
  then have "mset (map ((!) ss) order) = mset (map ((!) ss) [0..<length ss])"
    by (metis mset_map)
  then show ?thesis by (simp add: map_nth)
qed

lemma cluster_loop_all:
  assumes "cluster_loop ss thr K [0..<length ss] ([], {}) = (clusters', assigned')"
  shows "mset (concat clusters') = mset ss \<and>
     (\<forall>c\<in>set clusters'. c \<noteq> [] \<and> int (length c) \<le> max 1 K)"
proof -
  from cluster_loop_spec[OF assms, of "[]"] obtain order' where o: "distinct order'"
      "set order' = assigned'" "concat clusters' = map ((!) ss) order'"
      "{} \<union> set [0..<length ss] \<subseteq> assigned'" "assigned' \<subseteq> {0..<length ss}"
      "\<forall>c\<in>set clusters'. c \<noteq> [] \<and> int (length c) \<le> max 1 K"
    by auto
  have "set order' = {0..<length ss}" using o(2,4,5) by auto
  from mset_map_nth_perm[OF o(1) this] o(3,6) show ?thesis by simp
qed


lemma mset_concat_cong: "mset xss = mset yss \<Longrightarrow> mset (concat xss) = mset (concat yss)"
  by (metis mset_concat mset_map sum_mset_sum_list)

lemma mset_concat_refine:
  "(\<forall>c\<in>set cs. mset (concat (g c)) = mset c) \<Longrightarrow>
   mset (concat (concat (map g cs))) = mset (concat cs)"
  by (induction cs) simp_all

lemma split_large_cluster_spec:
  "mset (concat (split_large_cluster cluster thr K)) = mset cluster \<and>
   (cluster \<noteq> [] \<longrightarrow> [] \<notin> set (split_large_cluster cluster thr K)) \<and>
   (0 < K \<longrightarrow> (\<forall>c\<in>set (split_large_cluster cluster thr K). int (length c) \<le> K))"
proof (cases "int (length cluster) \<le> K")
  case True
  then show ?thesis by (simp add: split_large_cluster_def)
next
  case False
  obtain cs a where l: "cluster_loop cluster thr K [0..<length cluster] ([], {}) = (cs, a)"
    by (cases "cluster_loop cluster thr K [0..<length cluster] ([], {})")
  from cluster_loop_all[OF l] have "mset (concat cs) = mset cluster"
    "\<forall>c\<in>set cs. c \<noteq> [] \<and> int (length c) \<le> max 1 K" by simp_all
  moreover have "split_large_cluster cluster thr K = cs"
    using False l by (simp add: split_large_cluster_def)
  ultimately show ?thesis by auto
qed

lemma find_story_clusters_facts:
  "mset (concat (find_story_clusters ss thr K)) = mset ss \<and>
   [] \<notin> set (find_story_clusters ss thr K) \<and>
   (0 < K \<longrightarrow> (\<forall>c\<in>set (find_story_clusters ss thr K). int (length c) \<le> K))"
proof (cases "ss = []")
  case True
  then show ?thesis by (simp add: find_story_clusters_def)
next
  case False
  obtain cs a where l: "cluster_loop ss thr K [0..<length ss] ([], {}) = (cs, a)"
    by (cases "cluster_loop ss thr K [0..<length ss] ([], {})")
  from cluster_loop_all[OF l] have cs: "mset (concat cs) = mset ss"
    "\<forall>c\<in>set cs. c \<noteq> [] \<and> int (length c) \<le> max 1 K" by simp_all
  let ?g = "\<lambda>cluster. if int (length cluster) > K
              then split_large_cluster cluster (thr + 0.1) K else [cluster]"
  let ?sorted = "sort_by_size_desc cs"
  have res: "find_story_clusters ss thr K = concat (map ?g ?sorted)"
    using False l by (simp add: find_story_clusters_def Let_def)
  have set_sorted: "set ?sorted = set cs" by (simp add: sort_by_size_desc_def)
  have "mset ?sorted = mset cs" by (simp add: sort_by_size_desc_def)
  then have "mset (concat ?sorted) = mset ss" using cs(1) mset_concat_cong by metis
  moreover have "\<forall>c\<in>set ?sorted. mset (concat (?g c)) = mset c"
    using split_large_cluster_spec by simp
  ultimately have 1: "mset (concat (concat (map ?g ?sorted))) = mset ss"
    using mset_concat_refine[of ?sorted ?g] by simp
  have 2: "[] \<notin> set (concat (map ?g ?sorted))"
    using cs(2) set_sorted split_large_cluster_spec by (auto split: if_splits)
  have 3: "0 < K \<longrightarrow> (\<forall>c\<in>set (concat (map ?g ?sorted)). int (length c) \<le> K)"
    using cs(2) set_sorted split_large_cluster_spec by (auto split: if_splits)
  from 1 2 3 res show ?thesis by simp
qed

text \<open>
  C3. Size bound: for a positive \<open>max_cluster_size = K\<close> no cluster returned by
  \<open>find_story_clusters\<close> has more than \<open>K\<close> members, whatever the stories and the
  threshold; and every fragment \<open>_split_large_cluster\<close> returns for that bound has at
  most \<open>K\<close> members.
\<close>

theorem find_story_clusters_size_bound:
  "0 < K \<Longrightarrow>
   (\<forall>c\<in>set (find_story_clusters stories threshold K). int (length c) \<le> K) \<and>
   (\<forall>c\<in>set (split_large_cluster cluster higher_threshold K). int (length c) \<le> K)"
  using find_story_clusters_facts[of stories threshold K]
    split_large_cluster_spec[of cluster higher_threshold K] by blast

theorem find_story_clusters_size_bound_witness:
  "(0::int) < 1 \<and>
   list_all (\<lambda>c. int (length c) \<le> 1)
     (find_story_clusters [ [''Title'' \<mapsto> ''one''], [''Title'' \<mapsto> ''two'']] 0.3 1) \<and>
   list_all (\<lambda>c. int (length c) \<le> 1)
     (split_large_cluster [ [''Title'' \<mapsto> ''one''], [''Title'' \<mapsto> ''two'']] 0.4 1)"
  using find_story_clusters_size_bound[of 1 "[ [''Title'' \<mapsto> ''one''], [''Title'' \<mapsto> ''two'']]"
      "0.3" "[ [''Title'' \<mapsto> ''one''], [''Title'' \<mapsto> ''two'']]" "0.4"]
  by (simp add: list_all_iff)

section \<open>The score of the entity mode is at most 1\<close>

lemma finite_get_set: "finite (get_set es t)"
  by (simp add: get_set_def split: option.splits)

lemma finite_story_words: "finite (story_words text)"
  by (simp add: story_words_def)

lemma jaccard_le_1:
  assumes "finite A" "finite B"
  shows "real (card (A \<inter> B)) / real (card (A \<union> B)) \<le> 1"
proof -
  have "card (A \<inter> B) \<le> card (A \<union> B)"
    using assms by (intro card_mono) auto
  then show ?thesis
    by (cases "card (A \<union> B) = 0") (simp_all add: divide_le_eq)
qed

lemma dimension_step_le_1:
  "\<forall>x\<in>set (snd acc). x \<le> 1 \<Longrightarrow> \<forall>x\<in>set (snd (dimension_step e1 e2 acc t)). x \<le> 1"
  using jaccard_le_1[OF finite_get_set finite_get_set, of e1 t e2 t]
  by (auto simp: dimension_step_def Let_def)

lemma dimension_fold_le_1:
  "\<forall>x\<in>set (snd acc). x \<le> 1 \<Longrightarrow>
   \<forall>x\<in>set (snd (foldl (dimension_step e1 e2) acc ts)). x \<le> 1"
proof (induction ts arbitrary: acc)
  case Nil
  then show ?case by simp
next
  case (Cons t ts)
  from Cons.IH[OF dimension_step_le_1[OF Cons.prems]] show ?case by simp
qed

lemma dimension_loop_le_1: "\<forall>x\<in>set (snd (dimension_loop e1 e2)). x \<le> 1"
  unfolding dimension_loop_def by (rule dimension_fold_le_1) simp

lemma sum_list_le_length: "\<forall>x\<in>set xs. x \<le> (1::real) \<Longrightarrow> sum_list xs \<le> real (length xs)"
  by (induction xs) auto

lemma mean_le_1:
  assumes "\<forall>x\<in>set xs. x \<le> (1::real)"
  shows "(if xs \<noteq> [] then sum_list xs / real (length xs) else 0) \<le> 1"
  using sum_list_le_length[OF assms] by (cases xs) (simp_all add: divide_le_eq)

lemma word_overlap_le_1: "finite A \<Longrightarrow> finite B \<Longrightarrow> word_overlap A B \<le> 1"
proof -
  assume f: "finite A" "finite B"
  have "card (A \<inter> B) \<le> card (A \<union> B)"
    using f by (intro card_mono) auto
  then have "real (card (A \<inter> B)) \<le> real (max (card (A \<union> B)) 1)" by simp
  then show ?thesis unfolding word_overlap_def by (simp add: divide_le_eq)
qed

lemma calculate_story_similarity_le_1: "calculate_story_similarity a b \<le> 1"
proof -
  obtain dm ds where d:
    "dimension_loop (extract_entities (story_text a)) (extract_entities (story_text b)) = (dm, ds)"
    by (cases "dimension_loop (extract_entities (story_text a)) (extract_entities (story_text b))")
  have "\<forall>x\<in>set ds. x \<le> 1"
    using dimension_loop_le_1[of "extract_entities (story_text a)" "extract_entities (story_text b)"] d
    by simp
  from mean_le_1[OF this]
  have m: "(if ds \<noteq> [] then sum_list ds / real (length ds) else 0) \<le> 1" .
  have w: "word_overlap (story_words (story_text a)) (story_words (story_text b)) \<le> 1"
    by (rule word_overlap_le_1[OF finite_story_words finite_story_words])
  show ?thesis
    using m w d unfolding calculate_story_similarity_def Let_def by (simp split: if_splits)
qed

lemma grow_cluster_idle:
  assumes "K \<le> int (length cluster) \<or> (\<forall>a b. calculate_story_similarity a b < thr)"
  shows "grow_cluster ss thr K i js (cluster, assigned) = (cluster, assigned)"
proof (induction js)
  case Nil
  then show ?case by simp
next
  case (Cons j js)
  have "K \<le> int (length cluster) \<or> \<not> thr \<le> calculate_story_similarity (ss ! i) (ss ! j)"
    using assms by (auto simp: not_le)
  with Cons.IH show ?case by (auto simp: Let_def)
qed

lemma cluster_loop_singletons:
  "K \<le> 1 \<or> (\<forall>a b. calculate_story_similarity a b < thr) \<Longrightarrow>
   distinct is \<Longrightarrow> set is \<inter> assigned = {} \<Longrightarrow>
   cluster_loop ss thr K is (clusters, assigned) =
     (clusters @ map (\<lambda>i. [ss ! i]) is, assigned \<union> set is)"
proof (induction "is" arbitrary: clusters assigned)
  case Nil
  then show ?case by simp
next
  case (Cons i "is")
  have g: "grow_cluster ss thr K i [i + 1 ..< length ss] ([ss ! i], insert i assigned) =
      ([ss ! i], insert i assigned)"
    by (rule grow_cluster_idle) (use Cons.prems(1) in auto)
  have "cluster_loop ss thr K is (clusters @ [ [ss ! i]], insert i assigned) =
      ((clusters @ [ [ss ! i]]) @ map (\<lambda>i. [ss ! i]) is, insert i assigned \<union> set is)"
    by (rule Cons.IH) (use Cons.prems in auto)
  then show ?case using Cons.prems g by simp
qed

lemma sort_key_all_equal: "\<forall>c\<in>set cs. f c = k \<Longrightarrow> sort_key f cs = cs"
proof (rule sort_key_id_if_sorted)
  assume "\<forall>c\<in>set cs. f c = k"
  then have "map f cs = replicate (length cs) k"
    by (induction cs) simp_all
  then show "sorted (map f cs)" by (simp add: sorted_replicate)
qed

lemma singletons_of_all:
  assumes "K \<le> 1 \<or> (\<forall>a b. calculate_story_similarity a b < thr)"
  shows "fst (cluster_loop ss thr K [0..<length ss] ([], {})) = map (\<lambda>s. [s]) ss"
proof -
  have "cluster_loop ss thr K [0..<length ss] ([], {}) =
      ([] @ map (\<lambda>i. [ss ! i]) [0..<length ss], {} \<union> set [0..<length ss])"
    by (rule cluster_loop_singletons[OF assms]) simp_all
  moreover have "map (\<lambda>i. [ss ! i]) [0..<length ss] = map (\<lambda>s. [s]) (map ((!) ss) [0..<length ss])"
    by simp
  ultimately show ?thesis by (simp add: map_nth del: map_map)
qed

lemma find_story_clusters_singletons:
  assumes "K \<le> 0 \<or> 1 < thr"
  shows "find_story_clusters ss thr K = map (\<lambda>s. [s]) ss"
proof (cases "ss = []")
  case True
  then show ?thesis by (simp add: find_story_clusters_def)
next
  case False
  have idle: "K \<le> 1 \<or> (\<forall>a b. calculate_story_similarity a b < thr)"
  proof (cases "K \<le> 0")
    case True
    then show ?thesis by simp
  next
    case False
    with assms have "1 < thr" by simp
    then have "calculate_story_similarity a b < thr" for a b
      using calculate_story_similarity_le_1[of a b] by linarith
    then show ?thesis by simp
  qed
  have idle': "K \<le> 1 \<or> (\<forall>a b. calculate_story_similarity a b < thr + 0.1)"
  proof (cases "K \<le> 0")
    case True
    then show ?thesis by simp
  next
    case False
    with assms have "1 < thr" by simp
    then have "calculate_story_similarity a b < thr + 0.1" for a b
      using calculate_story_similarity_le_1[of a b] by linarith
    then show ?thesis by simp
  qed
  let ?cs = "map (\<lambda>s. [s]) ss"
  have s: "sort_by_size_desc ?cs = ?cs"
    unfolding sort_by_size_desc_def by (rule sort_key_all_equal[where k = "-1"]) simp
  have split1: "split_large_cluster [x] (thr + 0.1) K = [ [x]]" for x
    using singletons_of_all[OF idle', of "[x]"] by (simp add: split_large_cluster_def)
  have "concat (map (\<lambda>cluster. if int (length cluster) > K
            then split_large_cluster cluster (thr + 0.1) K else [cluster]) ?cs) = ?cs"
    by (induction ss) (simp_all add: split1)
  then show ?thesis
    using False singletons_of_all[OF idle, of ss] s by (simp add: find_story_clusters_def Let_def)
qed

text \<open>
  C5 (as amended). The engine does not check its configuration. For every threshold,
  also outside \<open>[0, 1]\<close>, and every \<open>max_cluster_size\<close>, also a non-positive one,
  \<open>find_story_clusters\<close> raises nothing and returns clusters that hold every input
  story exactly once; with \<open>max_cluster_size \<le> 0\<close> or a threshold above 1 every story
  is a singleton cluster, in input order. The constructor of the general mode stores
  whatever threshold the configuration holds.
\<close>

theorem find_story_clusters_no_validation:
  "(K \<le> 0 \<or> 1 < threshold \<longrightarrow>
      find_story_clusters stories threshold K = map (\<lambda>s. [s]) stories) \<and>
   mset (concat (find_story_clusters stories threshold K)) = mset stories \<and>
   init_similarity_threshold (config(''similarity_threshold'' \<mapsto> threshold)) = threshold"
  using find_story_clusters_singletons[of K threshold stories]
    find_story_clusters_facts[of stories threshold K]
  by (simp add: init_similarity_threshold_def)

theorem find_story_clusters_no_validation_witness:
  "((0::int) \<le> 0 \<or> (1::real) < 7) \<and>
   find_story_clusters [ [''Title'' \<mapsto> ''one''], [''Title'' \<mapsto> ''two'']] 7 0 =
     [ [ [''Title'' \<mapsto> ''one'']], [ [''Title'' \<mapsto> ''two'']]]"
  using find_story_clusters_no_validation[of 0 7
      "[ [''Title'' \<mapsto> ''one''], [''Title'' \<mapsto> ''two'']]" Map.empty]
  by simp

text \<open>
  The claim as stated fails: with the threshold 1.5 and the maximum cluster size -3 the
  call returns a cluster list.
\<close>

theorem find_story_clusters_invalid_config_counterexample:
  "find_story_clusters [ [''Title'' \<mapsto> ''Storm hits coast'']] (3/2) (-3) =
     [ [ [''Title'' \<mapsto> ''Storm hits coast'']]]"
  by (simp add: find_story_clusters_def split_large_cluster_def sort_by_size_desc_def)

section \<open>Symmetry of the two scores\<close>

lemma dimension_step_commute: "dimension_step e1 e2 = dimension_step e2 e1"
proof (intro ext)
  fix acc t
  have "get_set e1 t \<inter> get_set e2 t = get_set e2 t \<inter> get_set e1 t"
    "get_set e1 t \<union> get_set e2 t = get_set e2 t \<union> get_set e1 t" by auto
  then show "dimension_step e1 e2 acc t = dimension_step e2 e1 acc t"
    unfolding dimension_step_def Let_def by auto
qed

lemma dimension_loop_commute: "dimension_loop e1 e2 = dimension_loop e2 e1"
  unfolding dimension_loop_def dimension_step_commute[of e1 e2] ..

lemma word_overlap_commute: "word_overlap A B = word_overlap B A"
  unfolding word_overlap_def Int_commute[of A B] Un_commute[of A B] ..

lemma calculate_story_similarity_commute:
  "calculate_story_similarity A B = calculate_story_similarity B A"
  unfolding calculate_story_similarity_def Let_def
    dimension_loop_commute[of "extract_entities (story_text A)" "extract_entities (story_text B)"]
    word_overlap_commute[of "story_words (story_text A)" "story_words (story_text B)"] ..

lemma jaccard_commute:
  "(if A = {} \<or> B = {} then 0
    else (let intersection = card (A \<inter> B); union = card (A \<union> B)
          in if union > 0 then real intersection / real union else 0)) =
   (if B = {} \<or> A = {} then 0
    else (let intersection = card (B \<inter> A); union = card (B \<union> A)
          in if union > 0 then real intersection / real union else 0))"
  unfolding Int_commute[of A B] Un_commute[of A B] by auto

lemma simple_similarity_commute: "simple_similarity x y = simple_similarity y x"
  unfolding simple_similarity_def Let_def
  using jaccard_commute[of "set (findall lower_word3 (lower x))" "set (findall lower_word3 (lower y))"]
  unfolding Let_def .

lemma calculate_similarity_commute:
  assumes "\<forall>x y. tfidf x y = tfidf y x"
  shows "calculate_similarity tfidf x y = calculate_similarity tfidf y x"
proof -
  have "tfidf x y = tfidf y x" using assms by blast
  then show ?thesis
    unfolding calculate_similarity_def simple_similarity_commute[of x y] by auto
qed

lemma keyword_similarity_commute: "keyword_similarity k1 k2 = keyword_similarity k2 k1"
  unfolding keyword_similarity_def by (rule jaccard_commute)

lemma entity_similarity_commute: "entity_similarity e1 e2 = entity_similarity e2 e1"
proof -
  let ?A = "set (map lower (concat (map snd e1)))"
  let ?B = "set (map lower (concat (map snd e2)))"
  show ?thesis
    unfolding entity_similarity_def Let_def
    using jaccard_commute[of ?A ?B] unfolding Let_def by auto
qed

lemma temporal_similarity_commute: "temporal_similarity d1 d2 = temporal_similarity d2 d1"
proof -
  have "\<bar>real_of_int (d1 - d2) / 1000000\<bar> = \<bar>real_of_int (d2 - d1) / 1000000\<bar>"
    by (simp add: abs_minus_commute)
  then show ?thesis unfolding temporal_similarity_def by metis
qed

lemma corr_calculate_story_similarity_commute:
  assumes "\<forall>x y. tfidf x y = tfidf y x"
  shows "corr_calculate_story_similarity (calculate_similarity tfidf) P Q =
         corr_calculate_story_similarity (calculate_similarity tfidf) Q P"
  unfolding corr_calculate_story_similarity_def Let_def
    calculate_similarity_commute[OF assms, of "data_text_for_similarity (snd P)"
      "data_text_for_similarity (snd Q)"]
    entity_similarity_commute[of "data_entities (snd P)" "data_entities (snd Q)"]
    keyword_similarity_commute[of "set (data_keywords (snd P))" "set (data_keywords (snd Q))"]
    temporal_similarity_commute[of "published_date (fst P)" "published_date (fst Q)"] ..

text \<open>
  C6. Symmetry: \<open>score(A, B) = score(B, A)\<close>, for \<open>calculate_story_similarity\<close> of the
  entity mode on any two story dicts, and for \<open>_calculate_story_similarity\<close> of the
  general mode on any two processed stories, where the lexical component is
  \<open>NLPProcessor.calculate_similarity\<close> and the cosine that scikit-learn returns for two
  texts does not depend on their order.
\<close>

theorem similarity_symmetric:
  "(\<forall>x y. tfidf x y = tfidf y x) \<Longrightarrow>
   calculate_story_similarity A B = calculate_story_similarity B A \<and>
   corr_calculate_story_similarity (calculate_similarity tfidf) P Q =
     corr_calculate_story_similarity (calculate_similarity tfidf) Q P"
  using calculate_story_similarity_commute[of A B]
    corr_calculate_story_similarity_commute[of tfidf P Q] by blast

theorem similarity_symmetric_witness:
  "calculate_story_similarity [''Title'' \<mapsto> ''China APT phishing''] [''Title'' \<mapsto> ''Storm hits coast''] =
   calculate_story_similarity [''Title'' \<mapsto> ''Storm hits coast''] [''Title'' \<mapsto> ''China APT phishing''] \<and>
   corr_calculate_story_similarity (calculate_similarity (\<lambda>_ _. None))
     (\<lparr>story_id = ''1'', title = ''Storm hits coast'', url = ''u1'', source = ''s'',
        published_date = 0, content = [], description = [], author = [], collector = []\<rparr>,
      \<lparr>data_story_id = ''1'', data_entities = [], data_keywords = [''storm'', ''hits'', ''coast''],
        data_text_for_similarity = ''Storm hits coast''\<rparr>)
     (\<lparr>story_id = ''2'', title = ''Storm hits town'', url = ''u2'', source = ''s'',
        published_date = 60000000, content = [], description = [], author = [], collector = []\<rparr>,
      \<lparr>data_story_id = ''2'', data_entities = [], data_keywords = [''storm'', ''hits'', ''town''],
        data_text_for_similarity = ''Storm hits town''\<rparr>) =
   corr_calculate_story_similarity (calculate_similarity (\<lambda>_ _. None))
     (\<lparr>story_id = ''2'', title = ''Storm hits town'', url = ''u2'', source = ''s'',
        published_date = 60000000, content = [], description = [], author = [], collector = []\<rparr>,
      \<lparr>data_story_id = ''2'', data_entities = [], data_keywords = [''storm'', ''hits'', ''town''],
        data_text_for_similarity = ''Storm hits town''\<rparr>)
     (\<lparr>story_id = ''1'', title = ''Storm hits coast'', url = ''u1'', source = ''s'',
        published_date = 0, content = [], description = [], author = [], collector = []\<rparr>,
      \<lparr>data_story_id = ''1'', data_entities = [], data_keywords = [''storm'', ''hits'', ''coast''],
        data_text_for_similarity = ''Storm hits coast''\<rparr>)"
  by (rule similarity_symmetric) simp

section \<open>The score when no dimension matches, and the score of a story against itself\<close>

lemma dimension_fold_length:
  "fst acc = length (snd acc) \<Longrightarrow>
   fst (foldl (dimension_step e1 e2) acc ts) = length (snd (foldl (dimension_step e1 e2) acc ts))"
proof (induction ts arbitrary: acc)
  case Nil
  then show ?case by simp
next
  case (Cons t ts)
  have "fst (dimension_step e1 e2 acc t) = length (snd (dimension_step e1 e2 acc t))"
    using Cons.prems by (simp add: dimension_step_def Let_def)
  from Cons.IH[OF this] show ?case by simp
qed

lemma dimension_loop_length: "fst (dimension_loop e1 e2) = length (snd (dimension_loop e1 e2))"
  unfolding dimension_loop_def by (rule dimension_fold_length) simp

lemma word_overlap_full:
  assumes "finite A" "finite B" "1 \<le> word_overlap A B"
  shows "A = B"
proof -
  have le: "card (A \<inter> B) \<le> card (A \<union> B)"
    using assms(1,2) by (intro card_mono) auto
  define m where "m = max (card (A \<union> B)) 1"
  have mpos: "0 < real m" by (simp add: m_def)
  have "1 \<le> real (card (A \<inter> B)) / real m"
    using assms(3) unfolding word_overlap_def m_def .
  then have "real m \<le> real (card (A \<inter> B))"
    using mpos by (simp add: pos_le_divide_eq)
  then have "max (card (A \<union> B)) 1 \<le> card (A \<inter> B)"
    unfolding m_def by linarith
  with le have "card (A \<inter> B) = card (A \<union> B)" by simp
  moreover have "A \<inter> B \<subseteq> A \<union> B" by auto
  ultimately have "A \<inter> B = A \<union> B"
    using assms(1,2) by (intro card_subset_eq) auto
  then show ?thesis by blast
qed

lemma ungated_without_dimension:
  assumes "fst (dimension_loop (extract_entities (story_text A)) (extract_entities (story_text B))) = 0"
    and "1 / 2 \<le> word_overlap (story_words (story_text A)) (story_words (story_text B))"
  shows "calculate_story_similarity A B =
      3 / 10 * word_overlap (story_words (story_text A)) (story_words (story_text B))"
proof -
  obtain dm ds where d:
    "dimension_loop (extract_entities (story_text A)) (extract_entities (story_text B)) = (dm, ds)"
    by (cases "dimension_loop (extract_entities (story_text A)) (extract_entities (story_text B))")
  with assms(1) dimension_loop_length[of "extract_entities (story_text A)" "extract_entities (story_text B)"]
  have "dm = 0" "ds = []" by simp_all
  with d assms(2) show ?thesis
    unfolding calculate_story_similarity_def Let_def by simp
qed


lemma dimension_step_self:
  "dimension_step e e acc t =
     (if get_set e t \<noteq> {} then (fst acc + 1, snd acc @ [1]) else acc)"
proof (cases "get_set e t = {}")
  case True
  then show ?thesis by (simp add: dimension_step_def)
next
  case False
  have "finite (get_set e t)" by (simp add: get_set_def split: option.splits)
  with False have "0 < card (get_set e t)" by (simp add: card_gt_0_iff)
  with False show ?thesis by (simp add: dimension_step_def Let_def)
qed

lemma dimension_fold_self:
  "snd (foldl (dimension_step e e) acc ts) =
     snd acc @ replicate (length (filter (\<lambda>t. get_set e t \<noteq> {}) ts)) 1"
proof (induction ts arbitrary: acc)
  case Nil
  then show ?case by simp
next
  case (Cons t ts)
  have "snd (foldl (dimension_step e e) acc (t # ts)) =
      snd (foldl (dimension_step e e) (dimension_step e e acc t) ts)" by simp
  also have "\<dots> = snd (dimension_step e e acc t) @
      replicate (length (filter (\<lambda>t. get_set e t \<noteq> {}) ts)) 1"
    by (rule Cons.IH)
  also have "\<dots> = snd acc @
      replicate (length (filter (\<lambda>t. get_set e t \<noteq> {}) (t # ts))) 1"
    by (cases "get_set e t = {}") (simp_all add: dimension_step_self)
  finally show ?case .
qed

lemma dimension_loop_self:
  "snd (dimension_loop e e) =
     replicate (length (filter (\<lambda>t. get_set e t \<noteq> {}) (map fst entity_patterns))) 1"
  unfolding dimension_loop_def by (simp add: dimension_fold_self)

lemma mean_replicate_1:
  "(if replicate n (1::real) \<noteq> [] then sum_list (replicate n 1) / real (length (replicate n (1::real))) else 0) =
     (if n = 0 then 0 else 1)"
  by (simp add: sum_list_replicate)

lemma word_overlap_self:
  assumes "finite W" "W \<noteq> {}"
  shows "word_overlap W W = 1"
proof -
  have "0 < card W" using assms by (simp add: card_gt_0_iff)
  then show ?thesis by (simp add: word_overlap_def max_def)
qed

lemma extract_entities_entry:
  assumes "(t, l) \<in> set (extract_entities text)"
  shows "t \<in> set (map fst entity_patterns) \<and> l \<noteq> []"
proof -
  from assms obtain pat where "(t, pat) \<in> set entity_patterns"
    "findall pat text \<noteq> []" "l = remdups (map normalize_match (findall pat text))"
    unfolding extract_entities_def Let_def by (auto split: if_splits)
  then show ?thesis by (auto simp: image_iff) force
qed

lemma extract_entities_some_dimension:
  "extract_entities text \<noteq> [] \<longleftrightarrow>
   (\<exists>t\<in>set (map fst entity_patterns). get_set (extract_entities text) t \<noteq> {})"
proof
  assume "extract_entities text \<noteq> []"
  then obtain t l rest where e: "extract_entities text = (t, l) # rest"
    by (cases "extract_entities text") auto
  then have "(t, l) \<in> set (extract_entities text)" by simp
  from extract_entities_entry[OF this] e show
    "\<exists>t\<in>set (map fst entity_patterns). get_set (extract_entities text) t \<noteq> {}"
    by (intro bexI[of _ t]) (simp_all add: get_set_def)
next
  assume "\<exists>t\<in>set (map fst entity_patterns). get_set (extract_entities text) t \<noteq> {}"
  then show "extract_entities text \<noteq> []" by (auto simp: get_set_def)
qed

lemma score_against_itself:
  assumes "story_words (story_text A) \<noteq> {}"
  shows "calculate_story_similarity A A =
      (if extract_entities (story_text A) \<noteq> [] then 1 else 3 / 10)"
proof -
  let ?e = "extract_entities (story_text A)"
  let ?n = "length (filter (\<lambda>t. get_set ?e t \<noteq> {}) (map fst entity_patterns))"
  obtain dm where d: "dimension_loop ?e ?e = (dm, replicate ?n 1)"
    using dimension_loop_self[of ?e] by (cases "dimension_loop ?e ?e") simp
  have w: "word_overlap (story_words (story_text A)) (story_words (story_text A)) = 1"
    by (rule word_overlap_self[OF _ assms]) (simp add: story_words_def)
  have n: "?n = 0 \<longleftrightarrow> ?e = []"
    using extract_entities_some_dimension[of "story_text A"]
    by (auto simp: filter_empty_conv)
  have "calculate_story_similarity A A =
      (if replicate ?n (1::real) \<noteq> [] then sum_list (replicate ?n 1) / real (length (replicate ?n (1::real))) else 0) * 0.7 + 0.3"
    unfolding calculate_story_similarity_def Let_def d w by simp
  also have "\<dots> = (if ?n = 0 then 0 else 1) * 0.7 + 0.3"
    unfolding mean_replicate_1 ..
  finally show ?thesis using n by auto
qed

section \<open>Four concrete headlines\<close>

text \<open>
  The texts, entities and words of four one-field story dicts, evaluated once; the
  closed statements below are derived from them.
\<close>

lemma dimension_fold_no_entities:
  "foldl (dimension_step [] e2) acc ts = acc"
  by (induction ts arbitrary: acc) (simp_all add: dimension_step_def get_set_def)

lemma dimension_loop_no_entities: "dimension_loop [] e2 = (0, [])"
  unfolding dimension_loop_def by (rule dimension_fold_no_entities)

lemma text_storm_coast: "story_text [''Title'' \<mapsto> ''Storm hits coast''] = ''Storm hits coast ''"
  by (simp add: story_text_def get_field_def)

lemma text_storm_town: "story_text [''Title'' \<mapsto> ''Storm hits town''] = ''Storm hits town ''"
  by (simp add: story_text_def get_field_def)

lemma text_iran_stall: "story_text [''Title'' \<mapsto> ''Iran talks stall''] = ''Iran talks stall ''"
  by (simp add: story_text_def get_field_def)

lemma text_iran_resume: "story_text [''Title'' \<mapsto> ''Iran talks resume''] = ''Iran talks resume ''"
  by (simp add: story_text_def get_field_def)

lemma entities_storm_coast: "extract_entities ''Storm hits coast '' = []"
  by code_simp

lemma entities_storm_town: "extract_entities ''Storm hits town '' = []"
  by code_simp

lemma entities_iran_stall: "extract_entities ''Iran talks stall '' = [(''countries'', [''IRAN''])]"
  by code_simp

lemma entities_iran_resume: "extract_entities ''Iran talks resume '' = [(''countries'', [''IRAN''])]"
  by code_simp

lemma words_storm_coast: "story_words ''Storm hits coast '' = {''storm'', ''hits'', ''coast''}"
  by code_simp

lemma words_storm_town: "story_words ''Storm hits town '' = {''storm'', ''hits'', ''town''}"
  by code_simp

lemma words_iran_stall: "story_words ''Iran talks stall '' = {''iran'', ''talks'', ''stall''}"
  by code_simp

lemma words_iran_resume: "story_words ''Iran talks resume '' = {''iran'', ''talks'', ''resume''}"
  by code_simp

lemma overlap_storm: "word_overlap {''storm'', ''hits'', ''coast''} {''storm'', ''hits'', ''town''} = 1 / 2"
  by code_simp

lemma overlap_iran: "word_overlap {''iran'', ''talks'', ''stall''} {''iran'', ''talks'', ''resume''} = 1 / 2"
  by code_simp

lemma dimensions_iran:
  "dimension_loop [(''countries'', [''IRAN''])] [(''countries'', [''IRAN''])] = (1, [1])"
  by code_simp

text \<open>
  C10. In the entity mode, when no entity-type dimension has a non-zero overlap and the
  word overlap opens the gate (it is at least 0.5), the score is exactly 0.3 times the
  word overlap, hence at most 0.3; such a pair reaches the default threshold 0.3 exactly
  when the two stopword-filtered word sets are the same.
\<close>

theorem zero_dimension_score:
  "fst (dimension_loop (extract_entities (story_text A)) (extract_entities (story_text B))) = 0 \<Longrightarrow>
   1 / 2 \<le> word_overlap (story_words (story_text A)) (story_words (story_text B)) \<Longrightarrow>
   calculate_story_similarity A B =
     3 / 10 * word_overlap (story_words (story_text A)) (story_words (story_text B)) \<and>
   calculate_story_similarity A B \<le> 3 / 10 \<and>
   (3 / 10 \<le> calculate_story_similarity A B \<longleftrightarrow>
      story_words (story_text A) = story_words (story_text B))"
proof -
  let ?w = "word_overlap (story_words (story_text A)) (story_words (story_text B))"
  assume d: "fst (dimension_loop (extract_entities (story_text A)) (extract_entities (story_text B))) = 0"
    and g: "1 / 2 \<le> ?w"
  have s: "calculate_story_similarity A B = 3 / 10 * ?w"
    by (rule ungated_without_dimension[OF d g])
  have le: "?w \<le> 1"
  proof -
    have "card (story_words (story_text A) \<inter> story_words (story_text B)) \<le>
        card (story_words (story_text A) \<union> story_words (story_text B))"
      by (intro card_mono) (auto simp: finite_story_words)
    then have "real (card (story_words (story_text A) \<inter> story_words (story_text B))) \<le>
        real (max (card (story_words (story_text A) \<union> story_words (story_text B))) 1)" by simp
    then show ?thesis unfolding word_overlap_def by (simp add: divide_le_eq)
  qed
  have "story_words (story_text A) = story_words (story_text B)" if "3 / 10 \<le> calculate_story_similarity A B"
  proof -
    from that s have "1 \<le> ?w" by simp
    then show ?thesis by (rule word_overlap_full[OF finite_story_words finite_story_words])
  qed
  moreover have "3 / 10 \<le> calculate_story_similarity A B"
    if eq: "story_words (story_text A) = story_words (story_text B)"
  proof -
    have "story_words (story_text B) \<noteq> {}"
    proof
      assume "story_words (story_text B) = {}"
      with eq have "?w = 0" by (simp add: word_overlap_def)
      with g show False by simp
    qed
    then have "word_overlap (story_words (story_text B)) (story_words (story_text B)) = 1"
      by (intro word_overlap_self finite_story_words)
    with eq s show ?thesis by simp
  qed
  ultimately show ?thesis using s le by auto
qed

theorem zero_dimension_score_witness:
  "fst (dimension_loop (extract_entities (story_text [''Title'' \<mapsto> ''Storm hits coast'']))
         (extract_entities (story_text [''Title'' \<mapsto> ''Storm hits town'']))) = 0 \<and>
   (1::real) / 2 \<le> word_overlap (story_words (story_text [''Title'' \<mapsto> ''Storm hits coast'']))
         (story_words (story_text [''Title'' \<mapsto> ''Storm hits town''])) \<and>
   calculate_story_similarity [''Title'' \<mapsto> ''Storm hits coast''] [''Title'' \<mapsto> ''Storm hits town''] = 3 / 20"
proof -
  have d: "fst (dimension_loop (extract_entities (story_text [''Title'' \<mapsto> ''Storm hits coast'']))
         (extract_entities (story_text [''Title'' \<mapsto> ''Storm hits town'']))) = 0"
    unfolding text_storm_coast text_storm_town entities_storm_coast entities_storm_town
      dimension_loop_no_entities by simp
  have w: "word_overlap (story_words (story_text [''Title'' \<mapsto> ''Storm hits coast'']))
         (story_words (story_text [''Title'' \<mapsto> ''Storm hits town''])) = 1 / 2"
    unfolding text_storm_coast text_storm_town words_storm_coast words_storm_town
    by (rule overlap_storm)
  have g: "(1::real) / 2 \<le> word_overlap (story_words (story_text [''Title'' \<mapsto> ''Storm hits coast'']))
         (story_words (story_text [''Title'' \<mapsto> ''Storm hits town'']))"
    unfolding w by simp
  from zero_dimension_score[OF d g] d g show ?thesis unfolding w by simp
qed

text \<open>
  C7 (as amended). For every story with at least one word left after stopword removal,
  the score of the story against itself is at least 0.3, the default threshold: it is 1
  when at least one entity is extracted from the story and exactly 0.3 when none is. So
  it reaches a configured threshold above 0.3 only for a story with an entity.
\<close>

theorem self_similarity:
  "story_words (story_text A) \<noteq> {} \<Longrightarrow>
   3 / 10 \<le> calculate_story_similarity A A \<and>
   calculate_story_similarity A A = (if extract_entities (story_text A) \<noteq> [] then 1 else 3 / 10)"
  using score_against_itself[of A] by simp

theorem self_similarity_witness:
  "story_words (story_text [''Title'' \<mapsto> ''Iran talks stall'']) \<noteq> {} \<and>
   calculate_story_similarity [''Title'' \<mapsto> ''Iran talks stall''] [''Title'' \<mapsto> ''Iran talks stall''] = 1"
proof -
  have w: "story_words (story_text [''Title'' \<mapsto> ''Iran talks stall'']) \<noteq> {}"
    unfolding text_iran_stall words_iran_stall by simp
  from self_similarity[OF w] w show ?thesis
    unfolding text_iran_stall entities_iran_stall by simp
qed

text \<open>
  The claim as stated fails for a threshold above 0.3: the headline below has three
  words and no entity, and scores 0.3 against itself, below the threshold 0.5.
\<close>

theorem self_similarity_below_threshold_counterexample:
  "story_words (story_text [''Title'' \<mapsto> ''Storm hits coast'']) \<noteq> {} \<and>
   calculate_story_similarity [''Title'' \<mapsto> ''Storm hits coast''] [''Title'' \<mapsto> ''Storm hits coast'']
     < 1 / 2"
proof -
  have w: "story_words (story_text [''Title'' \<mapsto> ''Storm hits coast'']) \<noteq> {}"
    unfolding text_storm_coast words_storm_coast by simp
  from score_against_itself[OF w] w show ?thesis
    unfolding text_storm_coast entities_storm_coast by simp
qed

text \<open>Below one half the gate is closed: the part of the gate that the code keeps.\<close>

lemma gate_closed_below_half:
  assumes "fst (dimension_loop (extract_entities (story_text A)) (extract_entities (story_text B))) < 2"
    and "word_overlap (story_words (story_text A)) (story_words (story_text B)) < 1 / 2"
  shows "calculate_story_similarity A B = 0"
proof -
  obtain dm ds where d:
    "dimension_loop (extract_entities (story_text A)) (extract_entities (story_text B)) = (dm, ds)"
    by (cases "dimension_loop (extract_entities (story_text A)) (extract_entities (story_text B))")
  with assms show ?thesis
    unfolding calculate_story_similarity_def Let_def by simp
qed

text \<open>
  C2. The claim: fewer than two matching dimensions and a word overlap of at most 0.5
  give the score 0. The code returns 0 only for a word overlap below 0.5. The two
  headlines below share the country and nothing else, their word overlap is exactly
  2/4, and the code scores them 0.85.
\<close>

theorem gate_open_at_half:
  "calculate_story_similarity [''Title'' \<mapsto> ''Iran talks stall''] [''Title'' \<mapsto> ''Iran talks resume'']
     = 17 / 20"
  unfolding calculate_story_similarity_def Let_def text_iran_stall text_iran_resume
    entities_iran_stall entities_iran_resume words_iran_stall words_iran_resume
    dimensions_iran overlap_iran
  by simp

section \<open>The connection index\<close>

lemma entity_type_names:
  "map fst entity_patterns =
     [''countries'', ''threat_actors'', ''malware'', ''vulnerabilities'', ''techniques'',
      ''sectors'', ''tech'', ''cyber_ops'', ''supply_chain'', ''economic'', ''military'']"
  by (simp add: entity_patterns_def)

lemma entity_type_names_distinct: "distinct (map fst entity_patterns)"
  unfolding entity_type_names by simp

lemma entity_type_names_no_colon: "t \<in> set (map fst entity_patterns) \<Longrightarrow> CHR '':'' \<notin> set t"
  unfolding entity_type_names by auto

lemma concat_keys:
  assumes "distinct (map fst ps)"
    and "\<forall>p\<in>set ps. f p = [] \<or> (\<exists>v. f p = [(fst p, v)])"
  shows "distinct (map fst (concat (map f ps))) \<and>
     set (map fst (concat (map f ps))) \<subseteq> set (map fst ps)"
  using assms
proof (induction ps)
  case Nil
  then show ?case by simp
next
  case (Cons p ps)
  then have ih: "distinct (map fst (concat (map f ps)))"
    "set (map fst (concat (map f ps))) \<subseteq> set (map fst ps)" by simp_all
  from Cons.prems(1) have np: "fst p \<notin> set (map fst ps)" by simp
  from Cons.prems(2) consider "f p = []" | v where "f p = [(fst p, v)]" by auto
  then show ?case
  proof cases
    case 1
    with ih show ?thesis by auto
  next
    case 2
    with ih np show ?thesis by auto
  qed
qed

lemma extract_entities_keys:
  "distinct (map fst (extract_entities text)) \<and>
   set (map fst (extract_entities text)) \<subseteq> set (map fst entity_patterns)"
  unfolding extract_entities_def
proof (rule concat_keys[OF entity_type_names_distinct], intro ballI)
  fix p :: "string \<times> rx"
  obtain t pat where p: "p = (t, pat)" by (cases p)
  show "(case p of (entity_type, pattern) \<Rightarrow>
           let matches = findall pattern text
           in if matches \<noteq> [] then [(entity_type, remdups (map normalize_match matches))] else []) = [] \<or>
        (\<exists>v. (case p of (entity_type, pattern) \<Rightarrow>
           let matches = findall pattern text
           in if matches \<noteq> [] then [(entity_type, remdups (map normalize_match matches))] else []) =
          [(fst p, v)])"
    unfolding p by (cases "findall pat text = []") (simp_all add: Let_def)
qed

lemma extract_entities_values:
  "(t, l) \<in> set (extract_entities text) \<Longrightarrow> distinct l"
  unfolding extract_entities_def Let_def by (auto split: if_splits)

lemma get_set_extract:
  "e \<in> get_set (extract_entities text) t \<longleftrightarrow>
   (\<exists>l. (t, l) \<in> set (extract_entities text) \<and> e \<in> set l)"
proof -
  have d: "distinct (map fst (extract_entities text))"
    using extract_entities_keys by blast
  show ?thesis
  proof
    assume "e \<in> get_set (extract_entities text) t"
    then obtain l where "map_of (extract_entities text) t = Some l" "e \<in> set l"
      by (auto simp: get_set_def split: option.splits)
    then show "\<exists>l. (t, l) \<in> set (extract_entities text) \<and> e \<in> set l"
      by (auto dest: map_of_SomeD)
  next
    assume "\<exists>l. (t, l) \<in> set (extract_entities text) \<and> e \<in> set l"
    then obtain l where "(t, l) \<in> set (extract_entities text)" "e \<in> set l" by blast
    with d have "map_of (extract_entities text) t = Some l" by simp
    with \<open>e \<in> set l\<close> show "e \<in> get_set (extract_entities text) t"
      by (simp add: get_set_def)
  qed
qed

lemma split_key_join:
  assumes "CHR '':'' \<notin> set t"
  shows "split_key (t @ '':'' @ e) = (t, e)"
proof -
  have n: "\<And>x. x \<in> set t \<Longrightarrow> x \<noteq> CHR '':''" using assms by auto
  show ?thesis
    by (simp add: split_key_def takeWhile_append2[OF n] dropWhile_append2[OF n])
qed

lemma key_inject:
  assumes "CHR '':'' \<notin> set t" "CHR '':'' \<notin> set t'" "t @ '':'' @ e = t' @ '':'' @ e'"
  shows "t = t' \<and> e = e'"
proof -
  have "split_key (t @ '':'' @ e) = split_key (t' @ '':'' @ e')" using assms(3) by simp
  then show ?thesis
    unfolding split_key_join[OF assms(1)] split_key_join[OF assms(2)] by simp
qed

lemma story_keys_form:
  assumes "key \<in> set (story_keys s)"
  shows "\<exists>t e. key = t @ '':'' @ e \<and> t \<in> set (map fst entity_patterns)"
proof -
  from assms obtain t es e where "(t, es) \<in> set (extract_entities (story_text s))"
    "e \<in> set es" "key = t @ '':'' @ e"
    unfolding story_keys_def by auto
  moreover from this(1) have "t \<in> set (map fst entity_patterns)"
    using extract_entities_keys[of "story_text s"] by force
  ultimately show ?thesis by blast
qed

lemma story_keys_mem:
  assumes "CHR '':'' \<notin> set t"
  shows "t @ '':'' @ e \<in> set (story_keys s) \<longleftrightarrow>
     e \<in> get_set (extract_entities (story_text s)) t"
proof
  assume "t @ '':'' @ e \<in> set (story_keys s)"
  then obtain t' es e' where m: "(t', es) \<in> set (extract_entities (story_text s))"
    "e' \<in> set es" "t @ '':'' @ e = t' @ '':'' @ e'"
    unfolding story_keys_def by auto
  from m(1) have "t' \<in> set (map fst entity_patterns)"
    using extract_entities_keys[of "story_text s"] by force
  then have "CHR '':'' \<notin> set t'" by (rule entity_type_names_no_colon)
  from key_inject[OF assms this m(3)] m(1,2)
  show "e \<in> get_set (extract_entities (story_text s)) t"
    unfolding get_set_extract by blast
next
  assume "e \<in> get_set (extract_entities (story_text s)) t"
  then obtain l where "(t, l) \<in> set (extract_entities (story_text s))" "e \<in> set l"
    unfolding get_set_extract by blast
  then show "t @ '':'' @ e \<in> set (story_keys s)"
    unfolding story_keys_def by force
qed

lemma keys_of_entries_distinct:
  assumes "distinct (map fst E)"
    and "\<forall>(t, es)\<in>set E. distinct es \<and> CHR '':'' \<notin> set t"
  shows "distinct (concat (map (\<lambda>(entity_type, entity_set).
            map (\<lambda>entity. entity_type @ '':'' @ entity) entity_set) E))"
  using assms
proof (induction E)
  case Nil
  then show ?case by simp
next
  case (Cons p E)
  obtain t es where p: "p = (t, es)" by (cases p)
  from Cons.prems p have t: "distinct es" "CHR '':'' \<notin> set t" "t \<notin> fst ` set E" by auto
  have 1: "distinct (map (\<lambda>entity. t @ '':'' @ entity) es)"
    using t(1) by (simp add: distinct_map inj_on_def)
  have 2: "distinct (concat (map (\<lambda>(entity_type, entity_set).
            map (\<lambda>entity. entity_type @ '':'' @ entity) entity_set) E))"
    using Cons by simp
  have 3: "set (map (\<lambda>entity. t @ '':'' @ entity) es) \<inter>
      set (concat (map (\<lambda>(entity_type, entity_set).
            map (\<lambda>entity. entity_type @ '':'' @ entity) entity_set) E)) = {}"
  proof (rule ccontr)
    assume "\<not> ?thesis"
    then obtain e t' es' e' where x: "e \<in> set es" "(t', es') \<in> set E" "e' \<in> set es'"
      "t @ '':'' @ e = t' @ '':'' @ e'" by auto
    from x(2) Cons.prems(2) have "CHR '':'' \<notin> set t'" by auto
    from key_inject[OF t(2) this x(4)] x(2) t(3) show False by force
  qed
  from 1 2 3 show ?case unfolding p by simp
qed

lemma story_keys_distinct: "distinct (story_keys s)"
  unfolding story_keys_def
proof (rule keys_of_entries_distinct)
  show "distinct (map fst (extract_entities (story_text s)))"
    using extract_entities_keys by blast
  show "\<forall>(t, es)\<in>set (extract_entities (story_text s)). distinct es \<and> CHR '':'' \<notin> set t"
  proof (clarify, intro conjI)
    fix t es assume m: "(t, es) \<in> set (extract_entities (story_text s))"
    then show "distinct es" by (rule extract_entities_values)
    from m have "t \<in> set (map fst entity_patterns)"
      using extract_entities_keys[of "story_text s"] by force
    then show "CHR '':'' \<notin> set t" by (rule entity_type_names_no_colon)
  qed
qed


lemma append_keys_lookup:
  "distinct ks \<Longrightarrow>
   map_of (foldl (\<lambda>m key. append_story key story m) m ks) key =
     (if key \<in> set ks
      then Some ((case map_of m key of None \<Rightarrow> [] | Some l \<Rightarrow> l) @ [story])
      else map_of m key)"
proof (induction ks arbitrary: m)
  case Nil
  then show ?case by simp
next
  case (Cons k ks)
  from Cons.prems have d: "distinct ks" "k \<notin> set ks" by simp_all
  have u: "map_of (append_story k story m) =
      (map_of m)(k \<mapsto> (case map_of m k of None \<Rightarrow> [] | Some l \<Rightarrow> l) @ [story])"
    unfolding append_story_def by (rule update_conv')
  show ?case
    using d(2) by (simp add: Cons.IH[OF d(1)] u)
qed

lemma append_keys_distinct:
  "distinct (map fst m) \<Longrightarrow>
   distinct (map fst (foldl (\<lambda>m key. append_story key story m) m ks))"
  by (induction ks arbitrary: m) (simp_all add: append_story_def distinct_update)

lemma append_keys_dom:
  "fst ` set (foldl (\<lambda>m key. append_story key story m) m ks) = fst ` set m \<union> set ks"
proof (induction ks arbitrary: m)
  case Nil
  then show ?case by simp
next
  case (Cons k ks)
  have "fst ` set (append_story k story m) = insert k (fst ` set m)"
    unfolding append_story_def using dom_update[of k _ m] by (simp add: dom_map_of_conv_image_fst)
  then show ?case by (simp add: Cons.IH)
qed

lemma build_entity_map_snoc:
  "build_entity_map (stories @ [s]) =
     foldl (\<lambda>m key. append_story key s m) (build_entity_map stories) (story_keys s)"
  by (simp add: build_entity_map_def)

lemma build_entity_map_lookup:
  "map_of (build_entity_map stories) key =
     (if filter (\<lambda>s. key \<in> set (story_keys s)) stories = [] then None
      else Some (filter (\<lambda>s. key \<in> set (story_keys s)) stories))"
proof (induction stories rule: rev_induct)
  case Nil
  then show ?case by (simp add: build_entity_map_def)
next
  case (snoc s stories)
  show ?case
    unfolding build_entity_map_snoc append_keys_lookup[OF story_keys_distinct] snoc.IH
    by simp
qed

lemma build_entity_map_distinct: "distinct (map fst (build_entity_map stories))"
proof (induction stories rule: rev_induct)
  case Nil
  then show ?case by (simp add: build_entity_map_def)
next
  case (snoc s stories)
  then show ?case unfolding build_entity_map_snoc by (rule append_keys_distinct)
qed

lemma build_entity_map_keys:
  "k \<in> fst ` set (build_entity_map stories) \<Longrightarrow>
   \<exists>t e. k = t @ '':'' @ e \<and> t \<in> set (map fst entity_patterns)"
proof (induction stories rule: rev_induct)
  case Nil
  then show ?case by (simp add: build_entity_map_def)
next
  case (snoc s stories)
  from snoc.prems have "k \<in> fst ` set (build_entity_map stories) \<or> k \<in> set (story_keys s)"
    unfolding build_entity_map_snoc append_keys_dom by blast
  then show ?case using snoc.IH story_keys_form by blast
qed


lemma add_connection_lookup:
  assumes "CHR '':'' \<notin> set t'"
  shows "(case add_connection c (t' @ '':'' @ e', l) t of None \<Rightarrow> None | Some inner \<Rightarrow> inner e) =
     (if length l > 1 \<and> t = t' \<and> e = e'
      then Some \<lparr>conn_count = length l, conn_stories = l\<rparr>
      else (case c t of None \<Rightarrow> None | Some inner \<Rightarrow> inner e))"
  using split_key_join[OF assms, of e']
  by (auto simp: add_connection_def Let_def split: option.splits)

lemma add_connection_dom:
  assumes "CHR '':'' \<notin> set t'"
  shows "dom (add_connection c (t' @ '':'' @ e', l)) \<subseteq> insert t' (dom c)"
  using split_key_join[OF assms, of e']
  by (auto simp: add_connection_def Let_def split: if_splits)

lemma connections_dom:
  assumes "\<forall>k\<in>fst ` set em. \<exists>t e. k = t @ '':'' @ e \<and> t \<in> set (map fst entity_patterns)"
  shows "dom (foldl add_connection Map.empty em) \<subseteq> set (map fst entity_patterns)"
  using assms
proof (induction em rule: rev_induct)
  case Nil
  then show ?case by simp
next
  case (snoc x em)
  obtain k l where x: "x = (k, l)" by (cases x)
  from snoc.prems x obtain t e where k: "k = t @ '':'' @ e" "t \<in> set (map fst entity_patterns)"
    by auto
  have ih: "dom (foldl add_connection Map.empty em) \<subseteq> set (map fst entity_patterns)"
    using snoc by auto
  from add_connection_dom[OF entity_type_names_no_colon[OF k(2)], of "foldl add_connection Map.empty em" e l]
    ih k(2)
  show ?case unfolding x k by auto
qed

lemma connections_lookup:
  assumes "distinct (map fst em)"
    and "\<forall>k\<in>fst ` set em. \<exists>t e. k = t @ '':'' @ e \<and> t \<in> set (map fst entity_patterns)"
    and "CHR '':'' \<notin> set t"
  shows "(case foldl add_connection Map.empty em t of None \<Rightarrow> None | Some inner \<Rightarrow> inner e) =
     (case map_of em (t @ '':'' @ e) of None \<Rightarrow> None
      | Some l \<Rightarrow> if length l > 1 then Some \<lparr>conn_count = length l, conn_stories = l\<rparr> else None)"
  using assms(1,2)
proof (induction em rule: rev_induct)
  case Nil
  then show ?case by simp
next
  case (snoc x em)
  obtain k l where x: "x = (k, l)" by (cases x)
  from snoc.prems(2) x obtain t' e' where k: "k = t' @ '':'' @ e'"
    "t' \<in> set (map fst entity_patterns)" by auto
  have nc: "CHR '':'' \<notin> set t'" by (rule entity_type_names_no_colon[OF k(2)])
  from snoc.prems x have fresh: "map_of em k = None"
    by (simp add: map_of_eq_None_iff)
  have ih: "(case foldl add_connection Map.empty em t of None \<Rightarrow> None | Some inner \<Rightarrow> inner e) =
     (case map_of em (t @ '':'' @ e) of None \<Rightarrow> None
      | Some l \<Rightarrow> if length l > 1 then Some \<lparr>conn_count = length l, conn_stories = l\<rparr> else None)"
    using snoc by auto
  have step: "(case foldl add_connection Map.empty (em @ [x]) t of None \<Rightarrow> None | Some inner \<Rightarrow> inner e) =
     (if length l > 1 \<and> t = t' \<and> e = e'
      then Some \<lparr>conn_count = length l, conn_stories = l\<rparr>
      else (case foldl add_connection Map.empty em t of None \<Rightarrow> None | Some inner \<Rightarrow> inner e))"
    unfolding x k using add_connection_lookup[OF nc] by simp
  show ?case
  proof (cases "t = t' \<and> e = e'")
    case True
    then have "t @ '':'' @ e = k" using k(1) by simp
    with fresh have "map_of em (t @ '':'' @ e) = None" by simp
    moreover have "map_of (em @ [x]) (t @ '':'' @ e) = Some l"
      using fresh \<open>t @ '':'' @ e = k\<close> unfolding x by (simp add: map_add_def)
    ultimately show ?thesis unfolding step ih using True by simp
  next
    case False
    then have "t @ '':'' @ e \<noteq> k"
      using key_inject[OF assms(3) nc] k(1) by blast
    then have "map_of (em @ [x]) (t @ '':'' @ e) = map_of em (t @ '':'' @ e)"
      unfolding x by (simp add: map_add_def split: option.splits)
    then show ?thesis unfolding step ih using False by auto
  qed
qed

text \<open>
  C8. Connection index threshold: for every list of stories, the mapping returned by
  \<open>identify_connections\<close> has an entry for an entity name under an entity type exactly
  when that entity is extracted from at least two stories of the list; the entry then
  holds the number of those stories and the stories themselves, in input order. An
  entity found in one story only has no entry. (Stories are counted as entries of the
  input list.)
\<close>

theorem connection_index_threshold:
  "(case identify_connections stories entity_type of None \<Rightarrow> None | Some names \<Rightarrow> names entity) =
     (let story_list =
            filter (\<lambda>story. entity \<in> get_set (extract_entities (story_text story)) entity_type) stories
      in if 2 \<le> length story_list
         then Some \<lparr>conn_count = length story_list, conn_stories = story_list\<rparr> else None)"
proof (cases "entity_type \<in> set (map fst entity_patterns)")
  case True
  then have nc: "CHR '':'' \<notin> set entity_type" by (rule entity_type_names_no_colon)
  have keys: "\<forall>k\<in>fst ` set (build_entity_map stories).
      \<exists>t e. k = t @ '':'' @ e \<and> t \<in> set (map fst entity_patterns)"
    using build_entity_map_keys by blast
  have f: "filter (\<lambda>s. entity_type @ '':'' @ entity \<in> set (story_keys s)) stories =
      filter (\<lambda>story. entity \<in> get_set (extract_entities (story_text story)) entity_type) stories"
    using story_keys_mem[OF nc, of entity] by simp
  show ?thesis
    unfolding identify_connections_def
      connections_lookup[OF build_entity_map_distinct keys nc]
      build_entity_map_lookup f Let_def
    by (cases "filter (\<lambda>story. entity \<in> get_set (extract_entities (story_text story)) entity_type) stories")
      (auto simp: Suc_le_eq)
next
  case False
  have keys: "\<forall>k\<in>fst ` set (build_entity_map stories).
      \<exists>t e. k = t @ '':'' @ e \<and> t \<in> set (map fst entity_patterns)"
    using build_entity_map_keys by blast
  from connections_dom[OF keys] False
  have "identify_connections stories entity_type = None"
    unfolding identify_connections_def by blast
  moreover have "get_set (extract_entities (story_text story)) entity_type = {}" for story
  proof -
    have "entity_type \<notin> fst ` set (extract_entities (story_text story))"
      using extract_entities_keys[of "story_text story"] False by auto
    then have "map_of (extract_entities (story_text story)) entity_type = None"
      by (simp add: map_of_eq_None_iff)
    then show ?thesis by (simp add: get_set_def)
  qed
  ultimately show ?thesis by simp
qed

section \<open>The fallback extractor\<close>

text \<open>What holds of the returned lists under every iteration order of a set.\<close>

lemma classify_fold_subset:
  "set (fst (foldl classify_word acc ws)) \<union> set (snd (foldl classify_word acc ws)) \<subseteq>
     set (fst acc) \<union> set (snd acc) \<union> set ws"
proof (induction ws arbitrary: acc)
  case Nil
  then show ?case by simp
next
  case (Cons w ws)
  have "set (fst (classify_word acc w)) \<union> set (snd (classify_word acc w)) \<subseteq>
      set (fst acc) \<union> set (snd acc) \<union> {w}"
    by (auto simp: classify_word_def)
  with Cons.IH[of "classify_word acc w"] show ?case by auto
qed

lemma extract_entities_basic_lists:
  assumes "set_iteration set_order" and "(t, l) \<in> set (extract_entities_basic set_order text)"
  shows "distinct l \<and> length l \<le> 10 \<and> set l \<subseteq> set (findall capitalized_phrase text)"
proof -
  obtain orgs persons where c: "foldl classify_word ([], []) (findall capitalized_phrase text) = (orgs, persons)"
    by (cases "foldl classify_word ([], []) (findall capitalized_phrase text)")
  from classify_fold_subset[of "([], [])" "findall capitalized_phrase text"] c
  have sub: "set orgs \<subseteq> set (findall capitalized_phrase text)"
    "set persons \<subseteq> set (findall capitalized_phrase text)" by auto
  from assms(2) c have "l = take 10 (set_order orgs) \<or> l = take 10 (set_order persons)"
    by (auto simp: extract_entities_basic_def Let_def split: if_splits)
  moreover have "distinct (take 10 (set_order xs)) \<and> length (take 10 (set_order xs)) \<le> 10 \<and>
      set (take 10 (set_order xs)) \<subseteq> set xs" for xs
    using assms(1) set_take_subset[of 10 "set_order xs"] by (auto simp: set_iteration_def)
  ultimately show ?thesis using sub by blast
qed

text \<open>
  C9. The claim: the fallback extractor returns each list deduplicated, in first-seen
  order, capped at 10. The code builds each list as \<^verbatim>\<open>list(set(...))[:10]\<close>, so the order
  is the iteration order of a set. In \<^verbatim>\<open>Bob met Alice\<close> the names are seen in the order
  Bob, Alice; under the set order that lists elements last-seen first, the code returns
  Alice before Bob.
\<close>

theorem basic_extractor_order:
  "set_iteration (\<lambda>xs. rev (remdups xs)) \<and>
   findall capitalized_phrase ''Bob met Alice'' = [''Bob'', ''Alice''] \<and>
   extract_entities_basic (\<lambda>xs. rev (remdups xs)) ''Bob met Alice'' =
     [(''PERSON'', [''Alice'', ''Bob''])]"
proof (intro conjI)
  show "set_iteration (\<lambda>xs. rev (remdups xs))" by (simp add: set_iteration_def)
  show "findall capitalized_phrase ''Bob met Alice'' = [''Bob'', ''Alice'']" by code_simp
  show "extract_entities_basic (\<lambda>xs. rev (remdups xs)) ''Bob met Alice'' =
     [(''PERSON'', [''Alice'', ''Bob''])]" by code_simp
qed

section \<open>Connected components\<close>

















text \<open>
  The search on the chain 0 - 1 - 2, started at node 0: three levels of recursion reach
  every node, two do not.
\<close>

lemma dfs_on_a_chain:
  "dfs 3 (build_graph [(0, 1, 1), (1, 2, 1)]) 0 ({}, []) = Some ({0, 1, 2}, [0, 1, 2]) \<and>
   dfs 2 (build_graph [(0, 1, 1), (1, 2, 1)]) 0 ({}, []) = None"
  by code_simp




end
